theory Spec2Isabelle
  imports Main "HOL-Library.Word" "HOL-Library.Char_ord" "HOL-Library.List_Lexorder"
    "HOL-Library.Multiset"
begin

unbundle bit_operations_syntax

chapter \<open>freeotp-export: decoding, URI encoding and page layout\<close>

section \<open>Values, errors and the library interface\<close>

text \<open>
  Python values are modelled as follows. A \<^verbatim>\<open>bytes\<close> object is a list of 8-bit words. A
  \<^verbatim>\<open>str\<close> is the list of bytes of its UTF-8 encoding (\<^typ>\<open>string\<close>): comparing two such
  lists lexicographically is comparing the strings by code point, and percent-encoding works
  on these bytes. A raised exception is the left summand of the result.

  A token is whatever \<^verbatim>\<open>json.loads\<close> returned, hence a \<open>json\<close> value; an object is the
  association list of its members (keys distinct, as in a \<^verbatim>\<open>dict\<close>). The parsed credential
  file is an \<open>xml\<close> element tree as \<^verbatim>\<open>ElementTree\<close> presents it.

  Library and operating-system calls whose code is not part of the program are parameters,
  collected in the record \<open>lib\<close>: \<^verbatim>\<open>str.lower\<close>, the \<^verbatim>\<open>repr\<close> of floats and containers, the
  truth value of a float, \<^verbatim>\<open>json.loads\<close>, \<^verbatim>\<open>ET.parse\<close>, \<^verbatim>\<open>zlib.decompress\<close>, the extraction
  of one member of a tar stream (\<open>None\<close> when the member is not a regular file), the
  \<^verbatim>\<open>adb backup\<close> process (return code and the backup file it leaves, given the file before)
  and whether \<^verbatim>\<open>qrcode.make\<close> rejects a URI.
\<close>

type_synonym byte = "8 word"

datatype error = TypeError | ValueError | KeyError string | AttributeError | UnboundLocalError
  | OverflowError | BinasciiError | JSONDecodeError | ParseError | ZlibError | ReadError
  | FileNotFoundError | SystemExit | RenderError

typedecl pyfloat

datatype json = JNull | JBool bool | JInt int | JFloat pyfloat | JStr string
  | JArr "json list" | JObj "(string \<times> json) list"

datatype xml = Element (tag: string) (attrib: "(string \<times> string) list")
  (elem_text: "string option") (children: "xml list")

record lib =
  str_lower :: "string \<Rightarrow> string"
  py_repr :: "json \<Rightarrow> string"
  float_truthy :: "pyfloat \<Rightarrow> bool"
  json_loads :: "string \<Rightarrow> error + json"
  xml_parse :: "byte list \<Rightarrow> error + xml"
  zlib_decompress :: "byte list \<Rightarrow> error + byte list"
  tar_extract :: "byte list \<Rightarrow> string \<Rightarrow> error + byte list option"
  adb_backup :: "byte list option \<Rightarrow> int \<times> byte list option"
  qrcode_error :: "string \<Rightarrow> error option"

section \<open>Base32 (base64.b32encode, base64.b32decode)\<close>

text \<open>
  \<^verbatim>\<open>secret_to_b32\<close> calls \<^verbatim>\<open>base64.b32encode\<close>. The encoder and the matching decoder are
  transcribed from CPython's \<^verbatim>\<open>base64\<close> module (\<^verbatim>\<open>_b32encode\<close>, \<^verbatim>\<open>_b32decode\<close> with the
  standard alphabet, no case folding, no \<^verbatim>\<open>map01\<close>): the input is padded with zero bytes to a
  multiple of five, every five bytes become a 40-bit number written as four table entries of
  two characters, and the tail of the last quantum is overwritten with \<^verbatim>\<open>=\<close>. The decoder
  strips the padding, decodes every quantum into five bytes and replaces the last five bytes
  by the leading bytes of the re-shifted last accumulator.
\<close>

definition b32alphabet :: string where
  "b32alphabet = ''ABCDEFGHIJKLMNOPQRSTUVWXYZ234567''"

definition from_bytes :: "byte list \<Rightarrow> nat" where
  "from_bytes bs = foldl (\<lambda>acc b. acc * 256 + unat b) 0 bs"

definition b32tab2 :: "nat \<Rightarrow> string" where
  "b32tab2 k = [b32alphabet ! (k div 32), b32alphabet ! (k mod 32)]"

definition encode_quantum :: "byte list \<Rightarrow> string" where
  "encode_quantum chunk = (let c = from_bytes chunk in
     b32tab2 (drop_bit 30 c) @ b32tab2 (drop_bit 20 c AND 1023) @
     b32tab2 (drop_bit 10 c AND 1023) @ b32tab2 (c AND 1023))"

function chunks :: "nat \<Rightarrow> 'a list \<Rightarrow> 'a list list" where
  "chunks n xs = (if n = 0 \<or> xs = [] then [] else take n xs # chunks n (drop n xs))"
  by pat_completeness auto
termination
  by (relation "measure (\<lambda>(n, xs). length xs)") auto

definition replace_tail :: "nat \<Rightarrow> string \<Rightarrow> string" where
  "replace_tail k encoded = take (length encoded - k) encoded @ replicate k (CHR ''='')"

definition b32encode :: "byte list \<Rightarrow> string" where
  "b32encode s = (let leftover = length s mod 5;
       s' = (if leftover \<noteq> 0 then s @ replicate (5 - leftover) 0 else s);
       encoded = concat (map encode_quantum (chunks 5 s'))
     in if leftover = 1 then replace_tail 6 encoded
        else if leftover = 2 then replace_tail 4 encoded
        else if leftover = 3 then replace_tail 3 encoded
        else if leftover = 4 then replace_tail 1 encoded
        else encoded)"

definition b32rev :: "char \<Rightarrow> nat option" where
  "b32rev = map_of (map (\<lambda>(k, v). (v, k)) (enumerate 0 b32alphabet))"

fun decode_acc :: "nat \<Rightarrow> string \<Rightarrow> error + nat" where
  "decode_acc acc [] = Inr acc"
| "decode_acc acc (c # cs) =
     (case b32rev c of None \<Rightarrow> Inl BinasciiError
      | Some d \<Rightarrow> decode_acc (push_bit 5 acc + d) cs)"

definition to_bytes5 :: "nat \<Rightarrow> error + byte list" where
  "to_bytes5 acc = (if acc \<ge> 2 ^ 40 then Inl OverflowError
     else Inr (map (\<lambda>k. word_of_nat (drop_bit (8 * k) acc)) [4, 3, 2, 1, 0]))"

fun decode_quanta :: "string list \<Rightarrow> byte list \<Rightarrow> nat \<Rightarrow> error + (byte list \<times> nat)" where
  "decode_quanta [] decoded acc = Inr (decoded, acc)"
| "decode_quanta (quanta # rest) decoded acc =
     (case decode_acc 0 quanta of Inl e \<Rightarrow> Inl e
      | Inr acc' \<Rightarrow> (case to_bytes5 acc' of Inl e \<Rightarrow> Inl e
          | Inr bs \<Rightarrow> decode_quanta rest (decoded @ bs) acc'))"

definition rstrip_pad :: "string \<Rightarrow> string" where
  "rstrip_pad s = rev (dropWhile (\<lambda>c. c = CHR ''='') (rev s))"

definition b32decode :: "string \<Rightarrow> error + byte list" where
  "b32decode s0 =
     (if length s0 mod 8 \<noteq> 0 then Inl BinasciiError
      else let l = length s0; s = rstrip_pad s0; padchars = l - length s in
        case decode_quanta (chunks 8 s) [] 0 of Inl e \<Rightarrow> Inl e
        | Inr (decoded, acc) \<Rightarrow>
            if l mod 8 \<noteq> 0 \<or> padchars \<notin> {0, 1, 3, 4, 6} then Inl BinasciiError
            else if padchars \<noteq> 0 \<and> decoded \<noteq> [] then
              (case to_bytes5 (push_bit (5 * padchars) acc) of Inl e \<Rightarrow> Inl e
               | Inr lastq \<Rightarrow>
                   let leftover = (43 - 5 * padchars) div 8
                   in Inr (take (length decoded - 5) decoded @ take leftover lastq))
            else Inr decoded)"

section \<open>secret_to_b32\<close>

text \<open>
  \<^verbatim>\<open>bytes((x + 256) & 255 for x in secret)\<close>: iterating the value (a list gives its elements,
  a string its characters, an object its keys, anything else raises \<^verbatim>\<open>TypeError\<close>), adding
  and masking each element (defined on integers and booleans only), and constructing the
  \<^verbatim>\<open>bytes\<close> object, which raises \<^verbatim>\<open>ValueError\<close> outside \<open>0..255\<close>.
\<close>

definition iter_json :: "json \<Rightarrow> error + json list" where
  "iter_json v = (case v of JArr xs \<Rightarrow> Inr xs
     | JStr s \<Rightarrow> Inr (map (\<lambda>c. JStr [c]) s)
     | JObj kvs \<Rightarrow> Inr (map (\<lambda>kv. JStr (fst kv)) kvs)
     | _ \<Rightarrow> Inl TypeError)"

definition norm_byte :: "json \<Rightarrow> error + int" where
  "norm_byte x = (case x of JInt n \<Rightarrow> Inr ((n + 256) AND 255)
     | JBool b \<Rightarrow> Inr (((if b then 1 else 0) + 256) AND 255)
     | _ \<Rightarrow> Inl TypeError)"

fun norm_bytes :: "json list \<Rightarrow> error + int list" where
  "norm_bytes [] = Inr []"
| "norm_bytes (x # xs) = (case norm_byte x of Inl e \<Rightarrow> Inl e
     | Inr b \<Rightarrow> (case norm_bytes xs of Inl e \<Rightarrow> Inl e | Inr bs \<Rightarrow> Inr (b # bs)))"

definition bytes_of :: "int list \<Rightarrow> error + byte list" where
  "bytes_of xs = (if list_all (\<lambda>x. 0 \<le> x \<and> x < 256) xs then Inr (map word_of_int xs)
     else Inl ValueError)"

definition secret_to_b32 :: "json \<Rightarrow> error + string" where
  "secret_to_b32 secret =
     (case iter_json secret of Inl e \<Rightarrow> Inl e
      | Inr xs \<Rightarrow> (case norm_bytes xs of Inl e \<Rightarrow> Inl e
          | Inr ns \<Rightarrow> (case bytes_of ns of Inl e \<Rightarrow> Inl e
              | Inr sec \<Rightarrow> Inr (b32encode sec))))"


subsection \<open>Auxiliary notions for the Base32 proofs\<close>

fun digs :: "nat \<Rightarrow> nat \<Rightarrow> nat list" where
  "digs 0 c = []"
| "digs (Suc n) c = digs n (c div 32) @ [c mod 32]"

definition padlen :: "nat \<Rightarrow> nat" where
  "padlen t = (if t = 1 then 6 else if t = 2 then 4 else if t = 3 then 3 else if t = 4 then 1 else 0)"

definition unsigned_normalized :: "int list \<Rightarrow> byte list" where
  "unsigned_normalized s = map (\<lambda>b. word_of_int ((b + 256) mod 256)) s"

section \<open>Sequencing of fallible steps\<close>

text \<open>
  A statement that may raise is a value of \<open>error + 'a\<close>; \<open>ebind\<close> runs the next statement
  on the result of the previous one and passes an exception on, as Python does when nothing
  catches it (the program has no \<^verbatim>\<open>try\<close>).
\<close>

definition ebind :: "error + 'a \<Rightarrow> ('a \<Rightarrow> error + 'b) \<Rightarrow> error + 'b" where
  "ebind m f = (case m of Inl e \<Rightarrow> Inl e | Inr x \<Rightarrow> f x)"

section \<open>Strings: str(), truth values, percent-encoding\<close>

text \<open>
  \<^verbatim>\<open>str(v)\<close> and the formatting of \<open>v\<close> in an f-string are the decimal digits of an
  integer and the string itself; \<open>truthy\<close> is Python's truth value of a JSON value.
  \<^verbatim>\<open>urllib.parse.quote(s)\<close> with the default \<^verbatim>\<open>safe='/'\<close> keeps the unreserved characters and
  the slash and writes every other byte as \<^verbatim>\<open>%XX\<close>; on a value that is not a string it raises
  \<^verbatim>\<open>TypeError\<close>. \<open>query_data\<close> walks the dictionary in insertion order.
\<close>

definition digit_char :: "nat \<Rightarrow> char" where
  "digit_char d = ''0123456789'' ! d"

function str_nat :: "nat \<Rightarrow> string" where
  "str_nat n = (if n < 10 then [digit_char n] else str_nat (n div 10) @ [digit_char (n mod 10)])"
  by pat_completeness auto
termination
  by (relation "measure id") auto

definition str_int :: "int \<Rightarrow> string" where
  "str_int i = (if i < 0 then CHR ''-'' # str_nat (nat (- i)) else str_nat (nat i))"

definition py_str :: "lib \<Rightarrow> json \<Rightarrow> string" where
  "py_str L v = (case v of JStr s \<Rightarrow> s | JInt n \<Rightarrow> str_int n | JNull \<Rightarrow> ''None''
     | JBool b \<Rightarrow> (if b then ''True'' else ''False'') | _ \<Rightarrow> py_repr L v)"

definition truthy :: "lib \<Rightarrow> json \<Rightarrow> bool" where
  "truthy L v = (case v of JNull \<Rightarrow> False | JBool b \<Rightarrow> b | JInt n \<Rightarrow> n \<noteq> 0
     | JFloat f \<Rightarrow> float_truthy L f | JStr s \<Rightarrow> s \<noteq> [] | JArr xs \<Rightarrow> xs \<noteq> []
     | JObj kvs \<Rightarrow> kvs \<noteq> [])"

definition always_safe :: string where
  "always_safe = ''ABCDEFGHIJKLMNOPQRSTUVWXYZabcdefghijklmnopqrstuvwxyz0123456789_.-~''"

definition hex_digit :: "nat \<Rightarrow> char" where
  "hex_digit k = ''0123456789ABCDEF'' ! k"

definition quote_byte :: "char \<Rightarrow> string" where
  "quote_byte c = (if c \<in> set (always_safe @ ''/'') then [c]
     else [CHR ''%'', hex_digit (of_char c div 16), hex_digit (of_char c mod 16)])"

definition quote_from_bytes :: "string \<Rightarrow> string" where
  "quote_from_bytes bs = concat (map quote_byte bs)"

definition as_str :: "json \<Rightarrow> error + string" where
  "as_str v = (case v of JStr s \<Rightarrow> Inr s | _ \<Rightarrow> Inl TypeError)"

definition quote :: "json \<Rightarrow> error + string" where
  "quote v = ebind (as_str v) (\<lambda>s. Inr (quote_from_bytes s))"

fun join :: "string \<Rightarrow> string list \<Rightarrow> string" where
  "join sep [] = []"
| "join sep [x] = x"
| "join sep (x # y # ys) = x @ sep @ join sep (y # ys)"

fun query_items :: "(string \<times> json) list \<Rightarrow> error + string list" where
  "query_items [] = Inr []"
| "query_items ((d, v) # rest) =
     ebind (quote (JStr d)) (\<lambda>qd. ebind (quote v) (\<lambda>qv.
       ebind (query_items rest) (\<lambda>items. Inr ((qd @ ''='' @ qv) # items))))"

definition query_data :: "(string \<times> json) list \<Rightarrow> error + string" where
  "query_data p = ebind (query_items p) (\<lambda>items. Inr (join ''&'' items))"

section \<open>Tokens (generate_images)\<close>

text \<open>
  One iteration of the loop of \<^verbatim>\<open>generate_images\<close> is \<open>encode_token\<close>, in the program's order
  of evaluation: the issuer chain, \<^verbatim>\<open>token['secret']\<close> and its encoding, the parameter
  dictionary (\<^verbatim>\<open>algo\<close>, \<^verbatim>\<open>digits\<close>, \<^verbatim>\<open>period\<close>), the label, and the URI (\<^verbatim>\<open>type\<close>, the quoted
  label, the query). \<open>gen_loop\<close> threads the counter \<open>i\<close>, the list \<^verbatim>\<open>qrcode_list\<close> and the
  image files written so far (file name and the URI rendered into it); the files stay written
  when a later token raises.
\<close>

definition dict_get :: "json \<Rightarrow> string \<Rightarrow> error + json option" where
  "dict_get token k = (case token of JObj kvs \<Rightarrow> Inr (map_of kvs k) | _ \<Rightarrow> Inl AttributeError)"

definition subscript :: "json \<Rightarrow> string \<Rightarrow> error + json" where
  "subscript token k = (case token of
       JObj kvs \<Rightarrow> (case map_of kvs k of None \<Rightarrow> Inl (KeyError k) | Some v \<Rightarrow> Inr v)
     | _ \<Rightarrow> Inl TypeError)"

definition get_truthy :: "lib \<Rightarrow> json \<Rightarrow> string \<Rightarrow> error + bool" where
  "get_truthy L token k =
     ebind (dict_get token k) (\<lambda>r. Inr (case r of None \<Rightarrow> False | Some v \<Rightarrow> truthy L v))"

definition resolve_issuer :: "lib \<Rightarrow> json \<Rightarrow> nat \<Rightarrow> error + json" where
  "resolve_issuer L token i =
     ebind (get_truthy L token ''issuerInt'') (\<lambda>b1.
       if b1 then subscript token ''issuerInt''
       else ebind (get_truthy L token ''issuerExt'') (\<lambda>b2.
         if b2 then subscript token ''issuerExt''
         else ebind (get_truthy L token ''issuerAlt'') (\<lambda>b3.
           if b3 then subscript token ''issuerAlt''
           else ebind (get_truthy L token ''labelAlt'') (\<lambda>b4.
             if b4 then subscript token ''labelAlt''
             else Inr (JStr (''Unknown'' @ str_nat i))))))"

definition make_label :: "lib \<Rightarrow> json \<Rightarrow> error + json" where
  "make_label L token =
     ebind (get_truthy L token ''issuerExt'') (\<lambda>b.
       if b then ebind (subscript token ''issuerExt'') (\<lambda>e.
                 ebind (subscript token ''label'') (\<lambda>l.
                   Inr (JStr (py_str L e @ '':'' @ py_str L l))))
       else subscript token ''label'')"

definition lower_of :: "lib \<Rightarrow> json \<Rightarrow> error + string" where
  "lower_of L v = (case v of JStr s \<Rightarrow> Inr (str_lower L s) | _ \<Rightarrow> Inl AttributeError)"

definition encode_token :: "lib \<Rightarrow> json \<Rightarrow> nat \<Rightarrow> error + (string \<times> string)" where
  "encode_token L token i =
     ebind (resolve_issuer L token i) (\<lambda>issuer.
     ebind (subscript token ''secret'') (\<lambda>secret.
     ebind (secret_to_b32 secret) (\<lambda>b32_secret.
     ebind (subscript token ''algo'') (\<lambda>algo.
     ebind (subscript token ''digits'') (\<lambda>digits.
     ebind (subscript token ''period'') (\<lambda>period.
     let param = [(''secret'', JStr b32_secret), (''issuer'', issuer), (''algorithm'', algo),
                  (''digits'', JStr (py_str L digits)), (''period'', JStr (py_str L period))]
     in
     ebind (make_label L token) (\<lambda>label.
     ebind (subscript token ''type'') (\<lambda>ty.
     ebind (lower_of L ty) (\<lambda>lty.
     ebind (as_str label) (\<lambda>caption.
     ebind (query_data param) (\<lambda>q.
       Inr (caption,
         ''otpauth://'' @ lty @ ''/'' @ quote_from_bytes caption @ ''?'' @ q))))))))))))"

fun gen_loop :: "lib \<Rightarrow> string \<Rightarrow> json list \<Rightarrow> nat \<Rightarrow> (string \<times> string) list \<Rightarrow>
    (string \<times> string) list \<Rightarrow> (string \<times> string) list \<times> (error + (string \<times> string) list)" where
  "gen_loop L images_path [] i qrcode_list written = (written, Inr qrcode_list)"
| "gen_loop L images_path (token # rest) i qrcode_list written =
     (case encode_token L token i of Inl e \<Rightarrow> (written, Inl e)
      | Inr (label, uri) \<Rightarrow>
          (case qrcode_error L uri of Some e \<Rightarrow> (written, Inl e)
           | None \<Rightarrow>
               let file_path = images_path @ ''/'' @ str_nat i @ ''.png''
               in gen_loop L images_path rest (i + 1) (qrcode_list @ [(label, file_path)])
                    (written @ [(file_path, uri)])))"

definition generate_images :: "lib \<Rightarrow> string \<Rightarrow> json list \<Rightarrow>
    (string \<times> string) list \<times> (error + (string \<times> string) list)" where
  "generate_images L images_path tokens = gen_loop L images_path tokens 0 [] []"

section \<open>Reading the credential file (parse_tokens_from_xml, extract_tokens_file)\<close>

text \<open>
  The working directory is the content of the two files the program tests for: the backup
  container and the extracted \<^verbatim>\<open>tokens.xml\<close> (\<open>None\<close> when \<^verbatim>\<open>is_file()\<close> is false). In
  \<open>parse_loop\<close> the variable \<^verbatim>\<open>name\<close> is \<open>None\<close> until the loop body has run once; the
  statement \<^verbatim>\<open>token_order.append(name)\<close> after the loop reads it.
\<close>

definition FREEOTP_BACKUP :: string where "FREEOTP_BACKUP = ''freeotp-backup.ab''"
definition APK_NAME :: string where "APK_NAME = ''org.fedorahosted.freeotp''"
definition TOKENS_FILE :: string where "TOKENS_FILE = ''tokens.xml''"
definition APK_ROOT :: string where "APK_ROOT = ''apps''"
definition APK_PATH :: string where
  "APK_PATH = APK_ROOT @ ''/'' @ APK_NAME @ ''/sp/'' @ TOKENS_FILE"
definition PDF_FILE :: string where "PDF_FILE = ''qrcodes.pdf''"
definition IMAGES_DIR :: string where "IMAGES_DIR = ''qrcodes''"

record workdir =
  backup_file :: "byte list option"
  tokens_file :: "byte list option"

definition backup_freeotp :: "lib \<Rightarrow> workdir \<Rightarrow> error + workdir" where
  "backup_freeotp L w =
     (case adb_backup L (backup_file w) of (ret, file) \<Rightarrow>
        if ret \<noteq> 0 then Inl SystemExit
        else (case file of None \<Rightarrow> Inl FileNotFoundError
              | Some content \<Rightarrow>
                  if length content = 0 then Inl SystemExit
                  else Inr (w\<lparr>backup_file := file\<rparr>)))"

definition extract_tokens_file :: "lib \<Rightarrow> workdir \<Rightarrow> error + workdir" where
  "extract_tokens_file L w =
     ebind (case backup_file w of
              Some content \<Rightarrow> if length content > 0 then Inr w else backup_freeotp L w
            | None \<Rightarrow> backup_freeotp L w) (\<lambda>w1.
     ebind (case backup_file w1 of None \<Rightarrow> Inl FileNotFoundError
            | Some content \<Rightarrow> Inr (drop 24 content)) (\<lambda>data.
     ebind (zlib_decompress L data) (\<lambda>tarstream.
     ebind (tar_extract L tarstream APK_PATH) (\<lambda>member.
       let w2 = (case member of None \<Rightarrow> w1 | Some content \<Rightarrow> w1\<lparr>tokens_file := Some content\<rparr>)
       in (case tokens_file w2 of None \<Rightarrow> Inl SystemExit | Some c \<Rightarrow> Inr w2)))))"

definition findall :: "xml \<Rightarrow> string \<Rightarrow> xml list" where
  "findall root t = filter (\<lambda>e. tag e = t) (children root)"

definition json_loads_text :: "lib \<Rightarrow> string option \<Rightarrow> error + json" where
  "json_loads_text L txt = (case txt of None \<Rightarrow> Inl TypeError | Some s \<Rightarrow> json_loads L s)"

fun parse_loop :: "lib \<Rightarrow> xml list \<Rightarrow> json list \<Rightarrow> string option option \<Rightarrow>
    error + (json list \<times> string option option)" where
  "parse_loop L [] tokens name = Inr (tokens, name)"
| "parse_loop L (secrets # rest) tokens name =
     (let name' = map_of (attrib secrets) ''name'' in
      if name' = Some ''tokenOrder'' then parse_loop L rest tokens (Some name')
      else ebind (json_loads_text L (elem_text secrets)) (\<lambda>t.
             parse_loop L rest (tokens @ [t]) (Some name')))"

definition tokens_of_root :: "lib \<Rightarrow> xml \<Rightarrow> error + json list" where
  "tokens_of_root L root =
     ebind (parse_loop L (findall root ''string'') [] None) (\<lambda>(tokens, name).
       case name of None \<Rightarrow> Inl UnboundLocalError | Some n \<Rightarrow> Inr tokens)"

definition parse_tokens_from_xml :: "lib \<Rightarrow> workdir \<Rightarrow> error + (workdir \<times> json list)" where
  "parse_tokens_from_xml L w =
     ebind (case tokens_file w of None \<Rightarrow> extract_tokens_file L w | Some c \<Rightarrow> Inr w) (\<lambda>w1.
     ebind (case tokens_file w1 of None \<Rightarrow> Inl FileNotFoundError | Some c \<Rightarrow> xml_parse L c)
       (\<lambda>root.
     ebind (tokens_of_root L root) (\<lambda>tokens. Inr (w1, tokens))))"

section \<open>Page layout (write_to_pdf_file, add_image)\<close>

text \<open>
  \<^verbatim>\<open>write_to_pdf_file\<close> drives an FPDF object. The object is modelled by the list of
  drawing commands it has received; \<^verbatim>\<open>pdf.add_page()\<close>, \<^verbatim>\<open>pdf.image\<close> and
  \<^verbatim>\<open>pdf.text\<close> append one command each. The loop variables \<open>x\<close> and \<open>y\<close> are
  the arguments of \<open>write_loop\<close>.
\<close>

definition QRCODE_W :: int where "QRCODE_W = 35"
definition QRCODE_H :: int where "QRCODE_H = 35"

datatype pdf_cmd = SetFont string string int | AddPage | Image string int int int int
  | Text int int string | Output string

definition add_image :: "pdf_cmd list \<Rightarrow> string \<Rightarrow> string \<Rightarrow> int \<Rightarrow> int \<Rightarrow> pdf_cmd list" where
  "add_image pdf img text x y =
     pdf @ [Image img x y QRCODE_W QRCODE_H, Text x (y + QRCODE_H + 2) text]"

fun write_loop :: "pdf_cmd list \<Rightarrow> int \<Rightarrow> int \<Rightarrow> (string \<times> string) list \<Rightarrow> pdf_cmd list" where
  "write_loop pdf x y [] = pdf"
| "write_loop pdf x y (qc # rest) =
     (let (x1, y1) = (if x > 150 then (10, y + QRCODE_H + 13) else (x, y));
          (pdf2, x2, y2) = (if y1 > 250 then (pdf @ [AddPage], 10, 10) else (pdf, x1, y1));
          pdf3 = add_image pdf2 (snd qc) (fst qc) x2 y2
      in write_loop pdf3 (x2 + QRCODE_W + 60) y2 rest)"

definition write_to_pdf_file :: "pdf_cmd list \<Rightarrow> (string \<times> string) list \<Rightarrow> pdf_cmd list" where
  "write_to_pdf_file pdf qrcode_list = write_loop pdf 10 10 qrcode_list"

text \<open>
  Closed form of the loop: entry number \<open>k\<close> (counted from 0) lands in column
  \<open>k mod 2\<close> of row \<open>(k mod 12) div 2\<close>; \<open>cursor_x\<close>, \<open>cursor_y\<close> are the loop
  variables before entry \<open>k\<close> is handled and \<open>emit\<close> the commands entry \<open>k\<close> adds.
\<close>

definition cell_x :: "nat \<Rightarrow> int" where "cell_x k = 10 + 95 * int (k mod 2)"
definition cell_y :: "nat \<Rightarrow> int" where "cell_y k = 10 + 48 * int ((k mod 12) div 2)"

definition cursor_x :: "nat \<Rightarrow> int" where
  "cursor_x k = (if k = 0 then 10 else cell_x (k - 1) + 95)"
definition cursor_y :: "nat \<Rightarrow> int" where
  "cursor_y k = (if k = 0 then 10 else cell_y (k - 1))"

definition emit :: "nat \<Rightarrow> string \<times> string \<Rightarrow> pdf_cmd list" where
  "emit k qc = (if 0 < k \<and> k mod 12 = 0 then [AddPage] else []) @
     [Image (snd qc) (cell_x k) (cell_y k) 35 35, Text (cell_x k) (cell_y k + 37) (fst qc)]"

text \<open>
  The placements of a command list: each image with the number of pages added before it.
  \<open>layout\<close> is the placement list of the layout loop started on an empty command list.
\<close>

fun placements :: "nat \<Rightarrow> pdf_cmd list \<Rightarrow> (nat \<times> int \<times> int \<times> string) list" where
  "placements p [] = []"
| "placements p (AddPage # cs) = placements (Suc p) cs"
| "placements p (Image img x y w h # cs) = (p, x, y, img) # placements p cs"
| "placements p (c # cs) = placements p cs"

definition layout :: "(string \<times> string) list \<Rightarrow> (nat \<times> int \<times> int \<times> string) list" where
  "layout qs = placements 0 (write_to_pdf_file [] qs)"

fun texts :: "pdf_cmd list \<Rightarrow> string list" where
  "texts [] = []"
| "texts (Text x y t # cs) = t # texts cs"
| "texts (c # cs) = texts cs"

text \<open>
  Two placements overlap when they are on the same page and their
  \<open>QRCODE_W \<times> QRCODE_H\<close> image boxes intersect. A cell is admissible when it lies on
  the grid of the loop (left and top margin 10, steps \<open>QRCODE_W + 60\<close> and
  \<open>QRCODE_H + 13\<close>) within the thresholds 150 and 250.
\<close>

definition overlap :: "nat \<times> int \<times> int \<times> string \<Rightarrow> nat \<times> int \<times> int \<times> string \<Rightarrow> bool" where
  "overlap a b = (case a of (pa, xa, ya, ia) \<Rightarrow> case b of (pb, xb, yb, ib) \<Rightarrow>
     pa = pb \<and> xa < xb + QRCODE_W \<and> xb < xa + QRCODE_W \<and> ya < yb + QRCODE_H \<and> yb < ya + QRCODE_H)"

definition admissible :: "int \<times> int \<Rightarrow> bool" where
  "admissible c = (case c of (x, y) \<Rightarrow>
     10 \<le> x \<and> x \<le> 150 \<and> (x - 10) mod (QRCODE_W + 60) = 0 \<and>
     10 \<le> y \<and> y \<le> 250 \<and> (y - 10) mod (QRCODE_H + 13) = 0)"

definition ten_entries :: "(string \<times> string) list" where
  "ten_entries = [(''a'', ''0.png''), (''b'', ''1.png''), (''c'', ''2.png''), (''d'', ''3.png''),
     (''e'', ''4.png''), (''f'', ''5.png''), (''g'', ''6.png''), (''h'', ''7.png''),
     (''i'', ''8.png''), (''j'', ''9.png'')]"


definition thirteen_entries :: "(string \<times> string) list" where
  "thirteen_entries = ten_entries @ [(''k'', ''10.png''), (''l'', ''11.png''), (''m'', ''12.png'')]"

definition thirteen_cells :: "(nat \<times> int \<times> int) list" where
  "thirteen_cells =
     map (\<lambda>c. (0, c)) (List.product [10, 105] [10, 58, 106, 154, 202, 250]) @ [(1, 10, 10)]"

section \<open>The document and the whole run (generate_doc, main)\<close>

definition generate_doc :: "string \<Rightarrow> (string \<times> string) list \<Rightarrow> pdf_cmd list" where
  "generate_doc pdf_path qrcode_list =
     write_to_pdf_file [SetFont ''Arial'' [] 8, AddPage] qrcode_list @ [Output pdf_path]"

definition run_qrcodes :: "lib \<Rightarrow> string \<Rightarrow> workdir \<Rightarrow>
    (string \<times> string) list \<times> (error + pdf_cmd list)" where
  "run_qrcodes L dir w =
     (case parse_tokens_from_xml L w of Inl e \<Rightarrow> ([], Inl e)
      | Inr (w1, tokens) \<Rightarrow>
          (case generate_images L (dir @ ''/'' @ IMAGES_DIR) tokens of
             (written, Inl e) \<Rightarrow> (written, Inl e)
           | (written, Inr qrcode_list) \<Rightarrow>
               let qrcode_list_sorted = sort_key fst qrcode_list
               in (written, Inr (generate_doc (dir @ ''/'' @ PDF_FILE) qrcode_list_sorted))))"

section \<open>Notions of the specification\<close>

text \<open>
  The issuer as the specification words it: the first non-empty value among the fields
  \<^verbatim>\<open>issuerInt\<close>, \<^verbatim>\<open>issuerExt\<close>, \<^verbatim>\<open>issuerAlt\<close>, \<^verbatim>\<open>labelAlt\<close>, in this order, and
  \<^verbatim>\<open>Unknown<i>\<close> when there is none.
\<close>

definition issuer_keys :: "string list" where
  "issuer_keys = [''issuerInt'', ''issuerExt'', ''issuerAlt'', ''labelAlt'']"

definition spec_issuer :: "lib \<Rightarrow> (string \<times> json) list \<Rightarrow> nat \<Rightarrow> json" where
  "spec_issuer L kvs i =
     (case filter (truthy L) (List.map_filter (map_of kvs) issuer_keys) of
        [] \<Rightarrow> JStr (''Unknown'' @ str_nat i)
      | v # rest \<Rightarrow> v)"

text \<open>
  The caption as the specification words it: \<^verbatim>\<open><issuerExt>:<label>\<close> when \<^verbatim>\<open>issuerExt\<close> is
  there (a non-empty string), the label alone otherwise.
\<close>

definition absent_or_str :: "json option \<Rightarrow> bool" where
  "absent_or_str r = (case r of None \<Rightarrow> True | Some (JStr s) \<Rightarrow> True | Some v \<Rightarrow> False)"

definition spec_caption :: "(string \<times> json) list \<Rightarrow> string \<Rightarrow> string" where
  "spec_caption kvs label = (case map_of kvs ''issuerExt'' of
       Some (JStr e) \<Rightarrow> if e = [] then label else e @ '':'' @ label
     | _ \<Rightarrow> label)"

text \<open>
  The members a record needs for the loop of \<^verbatim>\<open>generate_images\<close> to get through: the fields
  the specification calls required, under the names the code looks them up with
  (\<^verbatim>\<open>algo\<close> for the algorithm).
\<close>

definition required_keys :: "string list" where
  "required_keys = [''secret'', ''algo'', ''digits'', ''period'', ''label'', ''type'']"

section \<open>Sample data\<close>

text \<open>
  Three token texts as FreeOTP stores them, with the values \<^verbatim>\<open>json.loads\<close> gives for them, and
  an instance of the library interface for evaluating examples: ASCII lower-casing,
  \<^verbatim>\<open>json.loads\<close> as the table of these three texts (any other text is rejected), a QR encoder
  that accepts every URI, and a device that is not connected.
\<close>

definition ascii_lower :: "char \<Rightarrow> char" where
  "ascii_lower c = (case map_of (zip ''ABCDEFGHIJKLMNOPQRSTUVWXYZ'' ''abcdefghijklmnopqrstuvwxyz'') c of
     Some l \<Rightarrow> l | None \<Rightarrow> c)"

definition token_text_acme :: string where
  \<open>token_text_acme = ''{"algo":"SHA1","digits":6,"issuerExt":"Acme","label":"alice@x.com","period":30,"secret":[-1,127,-128],"type":"TOTP"}''\<close>

definition fields_acme :: "(string \<times> json) list" where
  "fields_acme = [(''algo'', JStr ''SHA1''), (''digits'', JInt 6), (''issuerExt'', JStr ''Acme''),
     (''label'', JStr ''alice@x.com''), (''period'', JInt 30),
     (''secret'', JArr [JInt (- 1), JInt 127, JInt (- 128)]), (''type'', JStr ''TOTP'')]"

definition token_acme :: json where
  "token_acme = JObj fields_acme"

definition token_text_plain :: string where
  \<open>token_text_plain = ''{"algo":"SHA1","digits":6,"label":"Zed","period":30,"secret":[72,101,108,108,111],"type":"HOTP"}''\<close>

definition fields_plain :: "(string \<times> json) list" where
  "fields_plain = [(''algo'', JStr ''SHA1''), (''digits'', JInt 6), (''label'', JStr ''Zed''),
     (''period'', JInt 30), (''secret'', JArr [JInt 72, JInt 101, JInt 108, JInt 108, JInt 111]),
     (''type'', JStr ''HOTP'')]"

definition token_plain :: json where
  "token_plain = JObj fields_plain"

definition token_text_nolabel :: string where
  \<open>token_text_nolabel = ''{"algo":"SHA1","digits":6,"period":30,"secret":[72,101,108,108,111],"type":"TOTP"}''\<close>

definition fields_nolabel :: "(string \<times> json) list" where
  "fields_nolabel = [(''algo'', JStr ''SHA1''), (''digits'', JInt 6),
     (''period'', JInt 30), (''secret'', JArr [JInt 72, JInt 101, JInt 108, JInt 108, JInt 111]),
     (''type'', JStr ''TOTP'')]"

definition token_nolabel :: json where
  "token_nolabel = JObj fields_nolabel"

definition test_lib :: lib where
  "test_lib = \<lparr>str_lower = map ascii_lower, py_repr = (\<lambda>v. []), float_truthy = (\<lambda>f. True),
     json_loads = (\<lambda>s. case map_of [(token_text_acme, token_acme), (token_text_plain, token_plain),
         (token_text_nolabel, token_nolabel)] s of Some v \<Rightarrow> Inr v | None \<Rightarrow> Inl JSONDecodeError),
     xml_parse = (\<lambda>c. Inl ParseError), zlib_decompress = (\<lambda>d. Inl ZlibError),
     tar_extract = (\<lambda>d p. Inl ReadError), adb_backup = (\<lambda>f. (1, f)),
     qrcode_error = (\<lambda>u. None)\<rparr>"

text \<open>
  Sample credential files, as the trees \<^verbatim>\<open>ET.parse\<close> gives: one with a record that lacks
  \<^verbatim>\<open>label\<close> (and the reserved \<^verbatim>\<open>tokenOrder\<close> entry), one with a value that is not JSON, one
  without entries. \<open>lib_with_root r\<close> is the sample library with a parser that reads the
  file of the sample working directory as \<open>r\<close>.
\<close>

definition entry_acme :: xml where
  "entry_acme = Element ''string'' [(''name'', ''a1'')] (Some token_text_acme) []"

definition entry_nolabel :: xml where
  "entry_nolabel = Element ''string'' [(''name'', ''a2'')] (Some token_text_nolabel) []"

definition entry_broken :: xml where
  "entry_broken = Element ''string'' [(''name'', ''a3'')] (Some ''not json'') []"

definition entry_order :: xml where
  "entry_order = Element ''string'' [(''name'', ''tokenOrder'')] (Some ''[]'') []"

definition root_nolabel :: xml where
  "root_nolabel = Element ''map'' [] None [entry_acme, entry_nolabel, entry_order]"

definition root_broken :: xml where
  "root_broken = Element ''map'' [] None [entry_acme, entry_broken]"

definition root_empty :: xml where
  "root_empty = Element ''map'' [] None []"

definition sample_workdir :: workdir where
  "sample_workdir = \<lparr>backup_file = None, tokens_file = Some [60, 109, 97, 112, 62]\<rparr>"

definition lib_with_root :: "xml \<Rightarrow> lib" where
  "lib_with_root root = test_lib\<lparr>xml_parse := (\<lambda>c. Inr root)\<rparr>"

text \<open>
  A working directory that holds only a backup container: 24 header bytes and three bytes
  that are no compressed stream; and the sample library with a decompressor that returns
  the empty stream (its tar reader rejects every stream).
\<close>

definition sample_container :: workdir where
  "sample_container = \<lparr>backup_file = Some (replicate 24 0 @ [1, 2, 3]), tokens_file = None\<rparr>"

definition lib_empty_stream :: lib where
  "lib_empty_stream = test_lib\<lparr>zlib_decompress := (\<lambda>d. Inr [])\<rparr>"



section \<open>Properties of Base32 and of secret_to_b32\<close>

lemma length_digs [simp]: "length (digs n c) = n"
  by (induction n arbitrary: c) simp_all

lemma digs_lt: "d \<in> set (digs n c) \<Longrightarrow> d < 32"
  by (induction n arbitrary: c) auto

lemma foldl_digs: "foldl (\<lambda>a d. a * 32 + d) 0 (digs n c) = c mod 32 ^ n"
proof (induction n arbitrary: c)
  case 0
  show ?case by simp
next
  case (Suc n)
  have "c mod (32 * 32 ^ n) = 32 * (c div 32 mod 32 ^ n) + c mod 32"
    by (rule mod_mult2_eq)
  then show ?case by (simp add: Suc.IH)
qed

lemma take_digs: "take m (digs (m + p) c) = digs m (c div 32 ^ p)"
proof (induction p arbitrary: c)
  case 0
  show ?case by simp
next
  case (Suc p)
  have "take m (digs (m + Suc p) c) = take m (digs (m + p) (c div 32))"
    by simp
  also have "\<dots> = digs m (c div 32 div 32 ^ p)" by (rule Suc.IH)
  also have "c div 32 div 32 ^ p = c div 32 ^ Suc p"
    by (simp add: div_mult2_eq)
  finally show ?case .
qed

lemma and_1023: "(n::nat) AND 1023 = n mod 1024"
proof -
  have "(1023::nat) = mask 10" by (simp add: mask_eq_exp_minus_1)
  then have "n AND 1023 = take_bit 10 n" by (simp only: take_bit_eq_mask)
  then show ?thesis by (simp add: take_bit_eq_mod)
qed

lemma digs_numeral: "digs (numeral k) c = digs (pred_numeral k) (c div 32) @ [c mod 32]"
proof -
  have "numeral k = Suc (pred_numeral k)" by (rule numeral_eq_Suc)
  then show ?thesis by (simp only: digs.simps)
qed

lemma digs8: "digs 8 c = [c div 32 ^ 7 mod 32, c div 32 ^ 6 mod 32, c div 32 ^ 5 mod 32,
      c div 32 ^ 4 mod 32, c div 32 ^ 3 mod 32, c div 32 ^ 2 mod 32, c div 32 mod 32, c mod 32]"
  by (simp add: digs_numeral flip: div_mult2_eq)

lemma mod1024_split:
  fixes x :: nat
  shows "(x mod 1024) div 32 = (x div 32) mod 32" "(x mod 1024) mod 32 = x mod 32"
proof -
  have "x mod (32 * 32) = 32 * (x div 32 mod 32) + x mod 32" by (rule mod_mult2_eq)
  then have e: "x mod 1024 = 32 * (x div 32 mod 32) + x mod 32" by simp
  show "(x mod 1024) div 32 = (x div 32) mod 32" unfolding e by simp
  show "(x mod 1024) mod 32 = x mod 32" unfolding e by simp
qed

lemma shifts32:
  fixes c :: nat
  shows "c div 2 ^ 30 = c div 32 ^ 6" "c div 2 ^ 20 div 32 = c div 32 ^ 5"
      "c div 2 ^ 20 = c div 32 ^ 4" "c div 2 ^ 10 div 32 = c div 32 ^ 3"
      "c div 2 ^ 10 = c div 32 ^ 2" "c div 2 ^ 30 div 32 = c div 32 ^ 7"
  by (simp_all add: div_mult2_eq)

lemma encode_quantum_digs:
  assumes "from_bytes chunk < 2 ^ 40"
  shows "encode_quantum chunk = map ((!) b32alphabet) (digs 8 (from_bytes chunk))"
proof -
  define c where "c = from_bytes chunk"
  have c: "c < 2 ^ 40" using assms by (simp add: c_def)
  have "c div 32 ^ 7 < 32" using c by (simp add: less_mult_imp_div_less)
  then have e7: "c div 2 ^ 30 div 32 = c div 32 ^ 7 mod 32" by (simp add: shifts32)
  have e6: "c div 2 ^ 30 mod 32 = c div 32 ^ 6 mod 32" by (simp only: shifts32)
  have e5: "c div 2 ^ 20 mod 1024 div 32 = c div 32 ^ 5 mod 32"
    using mod1024_split(1) [of "c div 2 ^ 20"] shifts32(2) [of c] by simp
  have e4: "c div 2 ^ 20 mod 1024 mod 32 = c div 32 ^ 4 mod 32"
    using mod1024_split(2) [of "c div 2 ^ 20"] shifts32(3) [of c] by simp
  have e3: "c div 2 ^ 10 mod 1024 div 32 = c div 32 ^ 3 mod 32"
    using mod1024_split(1) [of "c div 2 ^ 10"] shifts32(4) [of c] by simp
  have e2: "c div 2 ^ 10 mod 1024 mod 32 = c div 32 ^ 2 mod 32"
    using mod1024_split(2) [of "c div 2 ^ 10"] shifts32(5) [of c] by simp
  have e1: "c mod 1024 div 32 = c div 32 mod 32" "c mod 1024 mod 32 = c mod 32"
    by (simp_all only: mod1024_split)
  have "encode_quantum chunk =
      [b32alphabet ! (c div 2 ^ 30 div 32), b32alphabet ! (c div 2 ^ 30 mod 32),
       b32alphabet ! (c div 2 ^ 20 mod 1024 div 32), b32alphabet ! (c div 2 ^ 20 mod 1024 mod 32),
       b32alphabet ! (c div 2 ^ 10 mod 1024 div 32), b32alphabet ! (c div 2 ^ 10 mod 1024 mod 32),
       b32alphabet ! (c mod 1024 div 32), b32alphabet ! (c mod 1024 mod 32)]"
    unfolding encode_quantum_def Let_def b32tab2_def drop_bit_eq_div and_1023 c_def
    by (simp only: append.simps)
  also have "\<dots> = map ((!) b32alphabet) (digs 8 c)"
    unfolding e7 e6 e5 e4 e3 e2 e1 digs8 by (simp only: list.map)
  finally show ?thesis by (simp only: c_def)
qed

lemma b32rev_alphabet:
  assumes "d < 32"
  shows "b32rev (b32alphabet ! d) = Some d"
proof -
  have "d = 0 \<or> d = 1 \<or> d = 2 \<or> d = 3 \<or> d = 4 \<or> d = 5 \<or> d = 6 \<or> d = 7 \<or>
      d = 8 \<or> d = 9 \<or> d = 10 \<or> d = 11 \<or> d = 12 \<or> d = 13 \<or> d = 14 \<or> d = 15 \<or>
      d = 16 \<or> d = 17 \<or> d = 18 \<or> d = 19 \<or> d = 20 \<or> d = 21 \<or> d = 22 \<or> d = 23 \<or>
      d = 24 \<or> d = 25 \<or> d = 26 \<or> d = 27 \<or> d = 28 \<or> d = 29 \<or> d = 30 \<or> d = 31"
    using assms by arith
  then show ?thesis
    by (elim disjE) (simp_all add: b32rev_def b32alphabet_def)
qed

lemma alphabet_not_pad:
  assumes "d < 32"
  shows "b32alphabet ! d \<noteq> CHR ''=''"
proof -
  have "b32alphabet ! d \<in> set b32alphabet"
    using assms by (intro nth_mem) (simp add: b32alphabet_def)
  then show ?thesis by (auto simp: b32alphabet_def)
qed

lemma decode_acc_digits:
  assumes "\<forall>d \<in> set ds. d < 32"
  shows "decode_acc a (map ((!) b32alphabet) ds) = Inr (foldl (\<lambda>a d. a * 32 + d) a ds)"
  using assms
proof (induction ds arbitrary: a)
  case Nil
  show ?case by simp
next
  case (Cons d ds)
  have "b32rev (b32alphabet ! d) = Some d" using Cons.prems by (simp add: b32rev_alphabet)
  then show ?case using Cons by (simp add: push_bit_eq_mult mult.commute)
qed

lemma word8_shift: "word_of_nat (x * 256 + unat b) = (b :: 8 word)"
proof -
  have "(word_of_nat (x * 256 + unat b) :: 8 word) = word_of_nat (unat b)"
    by (simp only: word_of_nat_eq_iff take_bit_eq_mod) simp
  then show ?thesis by simp
qed

lemma unat_byte_lt: "unat (b :: 8 word) < 256"
  using unsigned_less [of b] by simp

lemma from_bytes5:
  "from_bytes [b0, b1, b2, b3, b4] =
     (((unat b0 * 256 + unat b1) * 256 + unat b2) * 256 + unat b3) * 256 + unat b4"
  by (simp add: from_bytes_def)

lemma from_bytes5_lt: "from_bytes [b0, b1, b2, b3, b4] < 2 ^ 40"
proof -
  have "unat b0 < 256" "unat b1 < 256" "unat b2 < 256" "unat b3 < 256" "unat b4 < 256"
    by (simp_all add: unat_byte_lt)
  then show ?thesis unfolding from_bytes5 by simp
qed

lemma to_bytes5_from_bytes:
  "to_bytes5 (from_bytes [b0, b1, b2, b3, b4]) = Inr [b0, b1, b2, b3, b4]"
proof -
  define c where "c = from_bytes [b0, b1, b2, b3, b4]"
  have lt: "unat b0 < 256" "unat b1 < 256" "unat b2 < 256" "unat b3 < 256" "unat b4 < 256"
    by (simp_all add: unat_byte_lt)
  have c0: "c = (((unat b0 * 256 + unat b1) * 256 + unat b2) * 256 + unat b3) * 256 + unat b4"
    by (simp add: c_def from_bytes5)
  have D1: "c div 2 ^ 8 = ((unat b0 * 256 + unat b1) * 256 + unat b2) * 256 + unat b3"
    unfolding c0 using lt by simp
  have "c div 2 ^ 16 = c div 2 ^ 8 div 2 ^ 8" by (simp flip: div_mult2_eq)
  then have D2: "c div 2 ^ 16 = (unat b0 * 256 + unat b1) * 256 + unat b2"
    unfolding D1 using lt by simp
  have "c div 2 ^ 24 = c div 2 ^ 16 div 2 ^ 8" by (simp flip: div_mult2_eq)
  then have D3: "c div 2 ^ 24 = unat b0 * 256 + unat b1"
    unfolding D2 using lt by simp
  have "c div 2 ^ 32 = c div 2 ^ 24 div 2 ^ 8" by (simp flip: div_mult2_eq)
  then have D4: "c div 2 ^ 32 = unat b0"
    unfolding D3 using lt by simp
  have w4: "(word_of_nat c :: 8 word) = b4" unfolding c0 by (rule word8_shift)
  have w3: "(word_of_nat (c div 2 ^ 8) :: 8 word) = b3" unfolding D1 by (rule word8_shift)
  have w2: "(word_of_nat (c div 2 ^ 16) :: 8 word) = b2" unfolding D2 by (rule word8_shift)
  have w1: "(word_of_nat (c div 2 ^ 24) :: 8 word) = b1" unfolding D3 by (rule word8_shift)
  have w0: "(word_of_nat (c div 2 ^ 32) :: 8 word) = b0" unfolding D4 by simp
  have ks: "map (\<lambda>k. (word_of_nat (c div 2 ^ (8 * k)) :: 8 word)) [4, 3, 2, 1, 0] =
      [word_of_nat (c div 2 ^ 32), word_of_nat (c div 2 ^ 24), word_of_nat (c div 2 ^ 16),
       word_of_nat (c div 2 ^ 8), word_of_nat c]"
    by simp
  have "c < 2 ^ 40" unfolding c_def by (rule from_bytes5_lt)
  then show ?thesis
    unfolding c_def [symmetric] to_bytes5_def drop_bit_eq_div ks w0 w1 w2 w3 w4
    by simp
qed

declare chunks.simps [simp del]

lemma chunks_Nil [simp]: "chunks n [] = []"
  by (simp add: chunks.simps)

lemma chunks_app:
  assumes "x \<noteq> []" "length x = n"
  shows "chunks n (x @ ys) = x # chunks n ys"
  using assms by (subst chunks.simps) auto

lemma chunks_concat:
  assumes "\<forall>x \<in> set xss. length x = n" "0 < n"
  shows "chunks n (concat xss @ ys) = xss @ chunks n ys"
  using assms
proof (induction xss)
  case Nil
  show ?case by simp
next
  case (Cons x xss)
  then have "x \<noteq> []" "length x = n" by auto
  then have "chunks n (x @ (concat xss @ ys)) = x # chunks n (concat xss @ ys)"
    by (rule chunks_app)
  then show ?case using Cons by simp
qed

lemma chunks_short:
  assumes "ys \<noteq> []" "length ys \<le> n"
  shows "chunks n ys = [ys]"
proof -
  have "0 < n" using assms by (cases ys) auto
  then show ?thesis using assms by (subst chunks.simps) auto
qed

lemma split_chunks:
  assumes "0 < n"
  shows "\<exists>xss tail. s = concat xss @ tail \<and> (\<forall>x \<in> set xss. length x = n) \<and> length tail < n"
proof (induction s rule: length_induct)
  case (1 s)
  show ?case
  proof (cases "length s < n")
    case True
    then have "s = concat [] @ s \<and> (\<forall>x \<in> set []. length x = n) \<and> length s < n" by simp
    then show ?thesis by blast
  next
    case False
    then have "length (drop n s) < length s" using assms by simp
    with 1 obtain xss tail where d: "drop n s = concat xss @ tail"
        "\<forall>x \<in> set xss. length x = n" "length tail < n"
      by blast
    have "s = concat (take n s # xss) @ tail"
      using d(1) append_take_drop_id [of n s] by simp
    moreover have "\<forall>x \<in> set (take n s # xss). length x = n"
      using d(2) False by simp
    ultimately show ?thesis using d(3) by blast
  qed
qed

lemma rstrip_pad_append:
  assumes "e = [] \<or> last e \<noteq> CHR ''=''"
  shows "rstrip_pad (e @ replicate p (CHR ''='')) = e"
proof -
  have "dropWhile (\<lambda>c. c = CHR ''='') (replicate p (CHR ''='') @ rev e) = rev e"
  proof (cases "e = []")
    case True
    then show ?thesis by (simp add: dropWhile_append3 dropWhile_eq_Nil_conv)
  next
    case False
    with assms have "hd (rev e) \<noteq> CHR ''=''" by (simp add: hd_rev)
    moreover have "rev e \<noteq> []" using False by simp
    ultimately have "dropWhile (\<lambda>c. c = CHR ''='') (rev e) = rev e"
      by (cases "rev e") auto
    then show ?thesis by (simp add: dropWhile_append dropWhile_eq_Nil_conv)
  qed
  then show ?thesis by (simp add: rstrip_pad_def)
qed

lemma len5:
  assumes "length x = 5"
  shows "\<exists>b0 b1 b2 b3 b4. x = [b0, b1, b2, b3, b4]"
  using assms by (auto simp: eval_nat_numeral length_Suc_conv)

lemma from_bytes_lt:
  assumes "length x = 5"
  shows "from_bytes x < 2 ^ 40"
  using len5 [OF assms] from_bytes5_lt by auto

lemma to_bytes5_chunk:
  assumes "length x = 5"
  shows "to_bytes5 (from_bytes x) = Inr x"
  using len5 [OF assms] to_bytes5_from_bytes by auto

lemma encode_quantum_chunk:
  assumes "length x = 5"
  shows "encode_quantum x = map ((!) b32alphabet) (digs 8 (from_bytes x))"
  by (rule encode_quantum_digs) (rule from_bytes_lt [OF assms])

lemma length_encode_quantum:
  assumes "length x = 5"
  shows "length (encode_quantum x) = 8"
  using assms by (simp add: encode_quantum_chunk)

lemma encode_quantum_no_pad:
  assumes "length x = 5" "c \<in> set (encode_quantum x)"
  shows "c \<noteq> CHR ''=''"
  using assms by (auto simp: encode_quantum_chunk dest!: digs_lt alphabet_not_pad)

lemma decode_full_quantum:
  assumes "length x = 5"
  shows "decode_acc 0 (encode_quantum x) = Inr (from_bytes x)"
proof -
  have "decode_acc 0 (encode_quantum x) =
      Inr (foldl (\<lambda>a d. a * 32 + d) 0 (digs 8 (from_bytes x)))"
    unfolding encode_quantum_chunk [OF assms]
    by (rule decode_acc_digits) (auto dest: digs_lt)
  also have "foldl (\<lambda>a d. a * 32 + d) 0 (digs 8 (from_bytes x)) = from_bytes x mod 32 ^ 8"
    by (rule foldl_digs)
  also have "\<dots> = from_bytes x" using from_bytes_lt [OF assms] by simp
  finally show ?thesis .
qed

lemma from_bytes_append_zeros:
  "from_bytes (xs @ replicate k 0) = from_bytes xs * 256 ^ k"
proof (induction k)
  case 0
  show ?case by simp
next
  case (Suc k)
  have "replicate (Suc k) (0 :: byte) = replicate k 0 @ [0]"
    by (simp add: replicate_append_same)
  then have "from_bytes (xs @ replicate (Suc k) 0) = from_bytes (xs @ replicate k 0) * 256"
    by (simp add: from_bytes_def flip: append_assoc)
  then show ?case by (simp add: Suc.IH)
qed

lemma decode_quanta_full:
  assumes "\<forall>x \<in> set xss. length x = 5"
  shows "\<exists>acc'. decode_quanta (map encode_quantum xss @ rest) decoded acc =
           decode_quanta rest (decoded @ concat xss) acc'"
  using assms
proof (induction xss arbitrary: decoded acc)
  case Nil
  show ?case by auto
next
  case (Cons x xss)
  then have x: "length x = 5" by simp
  have "decode_quanta (map encode_quantum (x # xss) @ rest) decoded acc =
      decode_quanta (map encode_quantum xss @ rest) (decoded @ x) (from_bytes x)"
    by (simp add: decode_full_quantum [OF x] to_bytes5_chunk [OF x])
  moreover obtain acc' where
    "decode_quanta (map encode_quantum xss @ rest) (decoded @ x) (from_bytes x) =
       decode_quanta rest ((decoded @ x) @ concat xss) acc'"
    using Cons.IH [of "decoded @ x" "from_bytes x"] Cons.prems by auto
  ultimately show ?case by auto
qed

lemma partial_quantum:
  assumes t: "length tail = t" "t < 5" and p: "p \<le> 8" "5 * p \<le> 8 * (5 - t)"
  defines "padded \<equiv> tail @ replicate (5 - t) 0"
  shows "\<exists>acc bs. decode_acc 0 (take (8 - p) (encode_quantum padded)) = Inr acc
           \<and> to_bytes5 acc = Inr bs \<and> length bs = 5
           \<and> to_bytes5 (push_bit (5 * p) acc) = Inr padded"
proof -
  define c where "c = from_bytes padded"
  have len: "length padded = 5" using t by (simp add: padded_def)
  have c: "c < 2 ^ 40" unfolding c_def by (rule from_bytes_lt [OF len])
  have "take (8 - p) (encode_quantum padded) =
      map ((!) b32alphabet) (take (8 - p) (digs (8 - p + p) c))"
    using p by (simp add: encode_quantum_chunk [OF len] take_map c_def)
  also have "\<dots> = map ((!) b32alphabet) (digs (8 - p) (c div 32 ^ p))"
    by (simp only: take_digs)
  finally have "decode_acc 0 (take (8 - p) (encode_quantum padded)) =
      Inr (foldl (\<lambda>a d. a * 32 + d) 0 (digs (8 - p) (c div 32 ^ p)))"
    using decode_acc_digits [of "digs (8 - p) (c div 32 ^ p)" 0] by (auto dest: digs_lt)
  then have dec: "decode_acc 0 (take (8 - p) (encode_quantum padded)) =
      Inr ((c div 32 ^ p) mod 32 ^ (8 - p))"
    by (simp only: foldl_digs)
  have "(32::nat) ^ 8 = 32 ^ (8 - p) * 32 ^ p"
    using p by (simp flip: power_add)
  then have "c < 32 ^ (8 - p) * 32 ^ p" using c by simp
  then have "c div 32 ^ p < 32 ^ (8 - p)" by (rule less_mult_imp_div_less)
  then have acc: "(c div 32 ^ p) mod 32 ^ (8 - p) = c div 32 ^ p" by simp
  have small: "c div 32 ^ p < 2 ^ 40"
    by (rule le_less_trans [OF div_le_dividend c])
  have "c = from_bytes tail * 256 ^ (5 - t)"
    by (simp add: c_def padded_def from_bytes_append_zeros)
  moreover have "(256::nat) ^ (5 - t) = 2 ^ (8 * (5 - t))" "(32::nat) ^ p = 2 ^ (5 * p)"
    by (simp_all add: power_mult)
  moreover have "(2::nat) ^ (5 * p) dvd 2 ^ (8 * (5 - t))"
    using p(2) by (rule le_imp_power_dvd)
  ultimately have "32 ^ p dvd c" by simp
  then have "c div 32 ^ p * 32 ^ p = c" by simp
  then have restore: "push_bit (5 * p) (c div 32 ^ p) = c"
    by (simp add: push_bit_eq_mult power_mult)
  have "to_bytes5 c = Inr padded" unfolding c_def by (rule to_bytes5_chunk [OF len])
  moreover have "\<exists>bs. to_bytes5 (c div 32 ^ p) = Inr bs \<and> length bs = 5"
    using small by (simp add: to_bytes5_def)
  ultimately show ?thesis using dec acc restore by auto
qed

lemma length_concat_quanta:
  assumes "\<forall>x \<in> set xss. length x = 5"
  shows "length (concat (map encode_quantum xss)) = 8 * length xss"
  using assms by (induction xss) (simp_all add: length_encode_quantum)

lemma length_concat_chunks:
  assumes "\<forall>x \<in> set xss. length x = (5::nat)"
  shows "length (concat xss) = 5 * length xss"
  using assms by (induction xss) simp_all

lemma quanta_no_pad:
  assumes "\<forall>x \<in> set xss. length x = 5" "c \<in> set (concat (map encode_quantum xss))"
  shows "c \<noteq> CHR ''=''"
  using assms by (auto dest: encode_quantum_no_pad)

lemma chunks_quanta:
  assumes "\<forall>x \<in> set xss. length x = 5"
  shows "chunks 8 (concat (map encode_quantum xss) @ ys) = map encode_quantum xss @ chunks 8 ys"
  by (rule chunks_concat) (use assms in \<open>auto simp: length_encode_quantum\<close>)

lemma b32encode_split:
  assumes all5: "\<forall>x \<in> set xss. length x = 5" and t: "length tail = t" "t < 5"
  shows "b32encode (concat xss @ tail) =
     (if t = 0 then concat (map encode_quantum xss)
      else concat (map encode_quantum xss) @
        take (8 - padlen t) (encode_quantum (tail @ replicate (5 - t) 0)) @
        replicate (padlen t) (CHR ''=''))"
proof -
  have lo: "length (concat xss @ tail) mod 5 = t"
    using t by (simp add: length_concat_chunks [OF all5])
  show ?thesis
  proof (cases "t = 0")
    case True
    then have "tail = []" using t by simp
    moreover have "chunks 5 (concat xss @ []) = xss @ chunks 5 []"
      by (rule chunks_concat) (use all5 in auto)
    ultimately show ?thesis using True lo
      by (simp add: b32encode_def)
  next
    case False
    define padded where "padded = tail @ replicate (5 - t) 0"
    have len: "length padded = 5" using t by (simp add: padded_def)
    have "chunks 5 (concat xss @ padded) = xss @ chunks 5 padded"
      by (rule chunks_concat) (use all5 in auto)
    moreover have "chunks 5 padded = [padded]"
      by (rule chunks_short) (use len in auto)
    ultimately have ch: "chunks 5 ((concat xss @ tail) @ replicate (5 - t) 0) = xss @ [padded]"
      by (simp add: padded_def)
    have q: "length (encode_quantum padded) = 8" by (rule length_encode_quantum [OF len])
    have rt: "replace_tail p (concat (map encode_quantum xss) @ encode_quantum padded) =
        concat (map encode_quantum xss) @ take (8 - p) (encode_quantum padded) @
        replicate p (CHR ''='')" if "p \<le> 8" for p
      using that q by (simp add: replace_tail_def)
    have "b32encode (concat xss @ tail) =
        replace_tail (padlen t)
          (concat (map encode_quantum (chunks 5 ((concat xss @ tail) @ replicate (5 - t) 0))))"
      using False t(2) unfolding b32encode_def lo Let_def
      by (auto simp: padlen_def)
    then have enc: "b32encode (concat xss @ tail) =
        replace_tail (padlen t) (concat (map encode_quantum xss) @ encode_quantum padded)"
      unfolding ch by simp
    have "padlen t \<le> 8" by (simp add: padlen_def)
    then show ?thesis using False enc rt by (simp add: padded_def)
  qed
qed

lemma b32decode_full:
  assumes all5: "\<forall>x \<in> set xss. length x = 5"
  shows "b32decode (concat (map encode_quantum xss)) = Inr (concat xss)"
proof -
  define E where "E = concat (map encode_quantum xss)"
  have l: "length E mod 8 = 0" by (simp add: E_def length_concat_quanta [OF all5])
  have "E = [] \<or> last E \<noteq> CHR ''=''"
  proof (cases "E = []")
    case False
    then have "last E \<in> set E" by simp
    then show ?thesis using quanta_no_pad [OF all5, of "last E"] by (simp add: E_def)
  qed simp
  then have "rstrip_pad (E @ replicate 0 (CHR ''='')) = E" by (rule rstrip_pad_append)
  then have r: "rstrip_pad E = E" by simp
  have "chunks 8 (E @ []) = map encode_quantum xss @ chunks 8 []"
    unfolding E_def by (rule chunks_quanta [OF all5])
  then have ch: "chunks 8 E = map encode_quantum xss @ []" by simp
  obtain acc' where "decode_quanta (map encode_quantum xss @ []) [] 0 =
      decode_quanta [] ([] @ concat xss) acc'"
    using decode_quanta_full [OF all5, of "[]" "[]" 0] by blast
  then have dq: "decode_quanta (chunks 8 E) [] 0 = Inr (concat xss, acc')"
    by (simp add: ch)
  show ?thesis
    unfolding E_def [symmetric] b32decode_def Let_def r dq using l by simp
qed

lemma b32decode_padded:
  assumes all5: "\<forall>x \<in> set xss. length x = 5"
    and lastq: "length lastq = 8 - p" "\<forall>c \<in> set lastq. c \<noteq> CHR ''=''"
    and p: "p \<in> {1, 3, 4, 6}"
    and dec: "decode_acc 0 lastq = Inr acc" "to_bytes5 acc = Inr bs" "length bs = 5"
      "to_bytes5 (push_bit (5 * p) acc) = Inr lastbytes"
  shows "b32decode (concat (map encode_quantum xss) @ lastq @ replicate p (CHR ''='')) =
     Inr (concat xss @ take ((43 - 5 * p) div 8) lastbytes)"
proof -
  define E where "E = concat (map encode_quantum xss)"
  define S where "S = E @ lastq"
  have p8: "p < 8" "p \<noteq> 0" using p by auto
  have ne: "lastq \<noteq> []" using lastq(1) p8 by auto
  have l: "length (S @ replicate p (CHR ''='')) mod 8 = 0"
    using lastq(1) p8 by (simp add: S_def E_def length_concat_quanta [OF all5])
  have "last S \<noteq> CHR ''=''" using ne lastq(2) by (simp add: S_def)
  then have r: "rstrip_pad (S @ replicate p (CHR ''='')) = S"
    by (intro rstrip_pad_append) simp
  have pc: "length (S @ replicate p (CHR ''='')) - length S = p" by simp
  have "chunks 8 (E @ lastq) = map encode_quantum xss @ chunks 8 lastq"
    unfolding E_def by (rule chunks_quanta [OF all5])
  moreover have "chunks 8 lastq = [lastq]"
    by (rule chunks_short) (use ne lastq(1) in auto)
  ultimately have ch: "chunks 8 S = map encode_quantum xss @ [lastq]" by (simp add: S_def)
  obtain acc' where "decode_quanta (map encode_quantum xss @ [lastq]) [] 0 =
      decode_quanta [lastq] ([] @ concat xss) acc'"
    using decode_quanta_full [OF all5, of "[lastq]" "[]" 0] by blast
  then have dq: "decode_quanta (chunks 8 S) [] 0 = Inr (concat xss @ bs, acc)"
    by (simp add: ch dec)
  have "b32decode (S @ replicate p (CHR ''='')) =
      Inr (concat xss @ take ((43 - 5 * p) div 8) lastbytes)"
    unfolding b32decode_def Let_def r pc dq using l p p8 dec(3,4)
    by auto
  then show ?thesis by (simp add: S_def E_def)
qed

lemma padlen_cases:
  assumes "0 < t" "t < 5"
  shows "padlen t \<in> {1, 3, 4, 6}" "padlen t \<le> 8" "5 * padlen t \<le> 8 * (5 - t)"
    "(43 - 5 * padlen t) div 8 = t"
proof -
  have "t = 1 \<or> t = 2 \<or> t = 3 \<or> t = 4" using assms by arith
  then show "padlen t \<in> {1, 3, 4, 6}" "padlen t \<le> 8" "5 * padlen t \<le> 8 * (5 - t)"
    "(43 - 5 * padlen t) div 8 = t"
    by (auto simp: padlen_def)
qed

lemma b32_round_trip: "b32decode (b32encode s) = Inr s"
proof -
  obtain xss tail where s: "s = concat xss @ tail"
      and all5: "\<forall>x \<in> set xss. length x = 5" and tl: "length tail < 5"
    using split_chunks [of 5 s] by auto
  define t where "t = length tail"
  have t: "length tail = t" "t < 5" using tl by (simp_all add: t_def)
  show ?thesis
  proof (cases "t = 0")
    case True
    then have "tail = []" using t by simp
    then show ?thesis
      using b32encode_split [OF all5 t] True b32decode_full [OF all5] by (simp add: s)
  next
    case False
    then have t0: "0 < t" by simp
    define p where "p = padlen t"
    define padded where "padded = tail @ replicate (5 - t) 0"
    define lastq where "lastq = take (8 - p) (encode_quantum padded)"
    note pc = padlen_cases [OF t0 t(2), folded p_def]
    have len: "length padded = 5" using t by (simp add: padded_def)
    obtain acc bs where dec: "decode_acc 0 lastq = Inr acc" "to_bytes5 acc = Inr bs"
        "length bs = 5" "to_bytes5 (push_bit (5 * p) acc) = Inr padded"
      using partial_quantum [OF t pc(2,3)] unfolding lastq_def padded_def by blast
    have l1: "length lastq = 8 - p"
      by (simp add: lastq_def length_encode_quantum [OF len])
    have l2: "\<forall>c \<in> set lastq. c \<noteq> CHR ''=''"
      using encode_quantum_no_pad [OF len] unfolding lastq_def by (auto dest: in_set_takeD)
    have "b32encode s = concat (map encode_quantum xss) @ lastq @ replicate p (CHR ''='')"
      using b32encode_split [OF all5 t] False
      by (simp add: s lastq_def padded_def p_def)
    then have "b32decode (b32encode s) = Inr (concat xss @ take ((43 - 5 * p) div 8) padded)"
      using b32decode_padded [OF all5 l1 l2 pc(1) dec] by simp
    then show ?thesis using t by (simp add: pc(4) padded_def s)
  qed
qed

lemma and_255: "(n::int) AND 255 = n mod 256"
proof -
  have "(255::int) = mask 8" by (simp add: mask_eq_exp_minus_1)
  then have "n AND 255 = take_bit 8 n" by (simp only: take_bit_eq_mask)
  then show ?thesis by (simp add: take_bit_eq_mod)
qed

lemma norm_bytes_ints: "norm_bytes (map JInt s) = Inr (map (\<lambda>b. (b + 256) mod 256) s)"
  by (induction s) (simp_all add: norm_byte_def and_255)

lemma bytes_of_normalized:
  "bytes_of (map (\<lambda>b. (b + 256) mod 256) s) = Inr (unsigned_normalized s)"
  by (simp add: bytes_of_def unsigned_normalized_def list_all_iff comp_def)

lemma replicate_small:
  "replicate 1 x = [x]" "replicate 2 x = [x, x]" "replicate 3 x = [x, x, x]"
  "replicate 4 x = [x, x, x, x]" "replicate 6 x = [x, x, x, x, x, x]"
  by (simp_all add: numeral_eq_Suc)

lemma b32_pad: "b32encode [255, 127, 128] = ''757YA===''"
  by (simp add: b32encode_def chunks.simps encode_quantum_def from_bytes_def b32tab2_def
      b32alphabet_def drop_bit_eq_div and_1023 Let_def replace_tail_def replicate_small)

text \<open>
  Claim C1: for every list \<open>s\<close> of integers (in particular for the lengths 1 to 64 and the
  values \<open>-128..127\<close> of the claim) \<^verbatim>\<open>secret_to_b32\<close> succeeds and returns the padded Base32
  encoding of the bytes \<open>(b + 256) mod 256\<close>, and Base32-decoding that string gives back
  exactly these bytes.
\<close>

theorem secret_round_trip:
  "secret_to_b32 (JArr (map JInt s)) = Inr (b32encode (unsigned_normalized s))
   \<and> b32decode (b32encode (unsigned_normalized s)) = Inr (unsigned_normalized s)
   \<and> map uint (unsigned_normalized s) = map (\<lambda>b. (b + 256) mod 256) s"
proof (intro conjI)
  show "secret_to_b32 (JArr (map JInt s)) = Inr (b32encode (unsigned_normalized s))"
    unfolding secret_to_b32_def iter_json_def
    by (simp only: json.case sum.case norm_bytes_ints bytes_of_normalized)
  show "b32decode (b32encode (unsigned_normalized s)) = Inr (unsigned_normalized s)"
    by (rule b32_round_trip)
  show "map uint (unsigned_normalized s) = map (\<lambda>b. (b + 256) mod 256) s"
    by (simp add: unsigned_normalized_def uint_word_of_int take_bit_eq_mod)
qed

theorem secret_round_trip_witness:
  "secret_to_b32 (JArr (map JInt [- 1, 127, - 128])) = Inr ''757YA===''
   \<and> b32decode ''757YA==='' = Inr [255, 127, 128]
   \<and> map uint (unsigned_normalized [- 1, 127, - 128]) = [255, 127, 128]"
  using secret_round_trip [of "[- 1, 127, - 128]"]
  by (simp add: unsigned_normalized_def b32_pad)

section \<open>Properties of the token encoder\<close>

lemma ebind_simps [simp]: "ebind (Inl e) f = Inl e" "ebind (Inr x) f = f x"
  by (simp_all add: ebind_def)

lemma b32_hello: "b32encode [72, 101, 108, 108, 111] = ''JBSWY3DP''"
  by (simp add: b32encode_def chunks.simps encode_quantum_def from_bytes_def b32tab2_def
      b32alphabet_def drop_bit_eq_div and_1023 Let_def)

lemma str_nat_small: "str_nat 0 = ''0''" "str_nat 1 = ''1''" "str_int 6 = ''6''" "str_int 30 = ''30''"
  by (simp_all add: str_int_def digit_char_def)

lemmas token_eval = encode_token_def resolve_issuer_def get_truthy_def dict_get_def
  subscript_def truthy_def secret_to_b32_def iter_json_def norm_byte_def bytes_of_def
  make_label_def py_str_def lower_of_def as_str_def query_data_def quote_def
  quote_from_bytes_def quote_byte_def always_safe_def hex_digit_def and_255 digit_char_def

lemma uri_acme: "encode_token test_lib token_acme 0 = Inr (''Acme:alice@x.com'',
  ''otpauth://totp/Acme%3Aalice%40x.com?secret=757YA%3D%3D%3D&issuer=Acme&algorithm=SHA1&digits=6&period=30'')"
  by (simp add: token_eval token_acme_def fields_acme_def test_lib_def ascii_lower_def b32_pad str_nat_small)

lemma uri_plain: "encode_token test_lib token_plain 1 = Inr (''Zed'',
  ''otpauth://hotp/Zed?secret=JBSWY3DP&issuer=Unknown1&algorithm=SHA1&digits=6&period=30'')"
  by (simp add: token_eval token_plain_def fields_plain_def test_lib_def ascii_lower_def b32_hello str_nat_small)

lemma uri_nolabel: "encode_token test_lib token_nolabel 1 = Inl (KeyError ''label'')"
  by (simp add: token_eval token_nolabel_def fields_nolabel_def test_lib_def ascii_lower_def b32_hello str_nat_small)

declare str_nat.simps [simp del]

lemma resolve_issuer_spec: "resolve_issuer L (JObj kvs) i = Inr (spec_issuer L kvs i)"
  by (simp add: resolve_issuer_def get_truthy_def dict_get_def subscript_def spec_issuer_def
      issuer_keys_def List.map_filter_simps split: option.splits)

lemma gen_loop_success:
  assumes "gen_loop L path tokens i ql0 wr0 = (wr, Inr ql)"
  shows "\<exists>ql' wr'. ql = ql0 @ ql' \<and> wr = wr0 @ wr' \<and> length ql' = length tokens
      \<and> length wr' = length tokens
      \<and> (\<forall>k < length tokens. \<exists>uri. encode_token L (tokens ! k) (i + k) = Inr (fst (ql' ! k), uri)
            \<and> snd (ql' ! k) = path @ ''/'' @ str_nat (i + k) @ ''.png''
            \<and> wr' ! k = (snd (ql' ! k), uri))"
  using assms
proof (induction tokens arbitrary: i ql0 wr0)
  case Nil
  then show ?case by simp
next
  case (Cons token rest)
  from Cons.prems obtain cap uri where e: "encode_token L token i = Inr (cap, uri)"
    by (auto split: sum.splits prod.splits)
  define f where "f = path @ ''/'' @ str_nat i @ ''.png''"
  from Cons.prems e have r: "gen_loop L path rest (i + 1) (ql0 @ [(cap, f)]) (wr0 @ [(f, uri)]) = (wr, Inr ql)"
    by (auto simp: f_def Let_def split: option.splits)
  from Cons.IH [OF r] obtain ql'' wr'' where ih:
      "ql = (ql0 @ [(cap, f)]) @ ql''" "wr = (wr0 @ [(f, uri)]) @ wr''"
      "length ql'' = length rest" "length wr'' = length rest"
      "\<forall>k < length rest. \<exists>uri. encode_token L (rest ! k) (i + 1 + k) = Inr (fst (ql'' ! k), uri)
            \<and> snd (ql'' ! k) = path @ ''/'' @ str_nat (i + 1 + k) @ ''.png''
            \<and> wr'' ! k = (snd (ql'' ! k), uri)"
    by blast
  have "\<forall>k < length (token # rest). \<exists>uri'. encode_token L ((token # rest) ! k) (i + k) =
        Inr (fst (((cap, f) # ql'') ! k), uri')
      \<and> snd (((cap, f) # ql'') ! k) = path @ ''/'' @ str_nat (i + k) @ ''.png''
      \<and> ((f, uri) # wr'') ! k = (snd (((cap, f) # ql'') ! k), uri')"
  proof (intro allI impI)
    fix k assume k: "k < length (token # rest)"
    show "\<exists>uri'. encode_token L ((token # rest) ! k) (i + k) =
        Inr (fst (((cap, f) # ql'') ! k), uri')
      \<and> snd (((cap, f) # ql'') ! k) = path @ ''/'' @ str_nat (i + k) @ ''.png''
      \<and> ((f, uri) # wr'') ! k = (snd (((cap, f) # ql'') ! k), uri')"
    proof (cases k)
      case 0
      then show ?thesis using e by (simp add: f_def)
    next
      case (Suc k')
      then have "k' < length rest" using k by simp
      with ih(5) show ?thesis by (simp add: Suc)
    qed
  qed
  moreover have "ql = ql0 @ ((cap, f) # ql'')" "wr = wr0 @ ((f, uri) # wr'')"
    using ih(1,2) by simp_all
  moreover have "length ((cap, f) # ql'') = length (token # rest)"
      "length ((f, uri) # wr'') = length (token # rest)"
    using ih(3,4) by simp_all
  ultimately show ?case by blast
qed

text \<open>
  Claim C2: the issuer the code resolves is the first non-empty field in the order
  \<^verbatim>\<open>issuerInt\<close>, \<^verbatim>\<open>issuerExt\<close>, \<^verbatim>\<open>issuerAlt\<close>, \<^verbatim>\<open>labelAlt\<close>, and \<^verbatim>\<open>Unknown<i>\<close> when there
  is none; in a run that succeeds, the record at position \<open>k\<close> (from 0) of the token list is
  encoded with \<open>i = k\<close> and rendered into the file \<^verbatim>\<open><k>.png\<close>.
\<close>

theorem issuer_resolution:
  "resolve_issuer L (JObj kvs) i = Inr (spec_issuer L kvs i)
   \<and> (generate_images L path tokens = (written, Inr ql) \<longrightarrow>
        length ql = length tokens \<and> length written = length tokens
        \<and> (\<forall>k < length tokens. \<exists>uri. encode_token L (tokens ! k) k = Inr (fst (ql ! k), uri)
              \<and> snd (ql ! k) = path @ ''/'' @ str_nat k @ ''.png''
              \<and> written ! k = (snd (ql ! k), uri)))"
proof (intro conjI impI)
  show "resolve_issuer L (JObj kvs) i = Inr (spec_issuer L kvs i)"
    by (rule resolve_issuer_spec)
next
  assume "generate_images L path tokens = (written, Inr ql)"
  then have "gen_loop L path tokens 0 [] [] = (written, Inr ql)"
    by (simp add: generate_images_def)
  from gen_loop_success [OF this]
  show "length ql = length tokens" "length written = length tokens"
    "\<forall>k < length tokens. \<exists>uri. encode_token L (tokens ! k) k = Inr (fst (ql ! k), uri)
              \<and> snd (ql ! k) = path @ ''/'' @ str_nat k @ ''.png''
              \<and> written ! k = (snd (ql ! k), uri)"
    by auto
qed

lemma test_qrcode [simp]: "qrcode_error test_lib u = None"
  by (simp add: test_lib_def)

lemma generate_two:
  "generate_images test_lib ''qrcodes'' [token_acme, token_plain] =
    ([(''qrcodes/0.png'', ''otpauth://totp/Acme%3Aalice%40x.com?secret=757YA%3D%3D%3D&issuer=Acme&algorithm=SHA1&digits=6&period=30''),
      (''qrcodes/1.png'', ''otpauth://hotp/Zed?secret=JBSWY3DP&issuer=Unknown1&algorithm=SHA1&digits=6&period=30'')],
     Inr [(''Acme:alice@x.com'', ''qrcodes/0.png''), (''Zed'', ''qrcodes/1.png'')])"
  by (simp add: generate_images_def uri_acme uri_plain [unfolded One_nat_def]
      str_nat_small [unfolded One_nat_def] Let_def)

theorem issuer_resolution_witness:
  "resolve_issuer test_lib token_acme 0 = Inr (JStr ''Acme'')
   \<and> resolve_issuer test_lib token_plain 1 = Inr (JStr ''Unknown1'')
   \<and> encode_token test_lib token_plain 1 = Inr (''Zed'',
        ''otpauth://hotp/Zed?secret=JBSWY3DP&issuer=Unknown1&algorithm=SHA1&digits=6&period=30'')"
proof -
  have a: "resolve_issuer test_lib token_acme 0 = Inr (JStr ''Acme'')"
    using issuer_resolution [of test_lib fields_acme 0]
    by (simp add: token_acme_def fields_acme_def spec_issuer_def issuer_keys_def
        List.map_filter_simps truthy_def)
  have b: "resolve_issuer test_lib token_plain 1 = Inr (JStr ''Unknown1'')"
    using issuer_resolution [of test_lib fields_plain 1]
    by (simp add: token_plain_def fields_plain_def spec_issuer_def issuer_keys_def
        List.map_filter_simps truthy_def str_nat_small [unfolded One_nat_def])
  have every: "\<forall>k < length [token_acme, token_plain]. \<exists>uri.
      encode_token test_lib ([token_acme, token_plain] ! k) k =
        Inr (fst ([(''Acme:alice@x.com'', ''qrcodes/0.png''), (''Zed'', ''qrcodes/1.png'')] ! k), uri)"
    using issuer_resolution [of test_lib "[]" 0 "''qrcodes''" "[token_acme, token_plain]"]
      generate_two by blast
  have "\<exists>uri. encode_token test_lib ([token_acme, token_plain] ! 1) 1 =
        Inr (fst ([(''Acme:alice@x.com'', ''qrcodes/0.png''), (''Zed'', ''qrcodes/1.png'')] ! 1), uri)"
    using every [rule_format, of 1] by simp
  then have c: "encode_token test_lib token_plain 1 = Inr (''Zed'',
        ''otpauth://hotp/Zed?secret=JBSWY3DP&issuer=Unknown1&algorithm=SHA1&digits=6&period=30'')"
    by (simp add: uri_plain [unfolded One_nat_def])
  from a b c show ?thesis by simp
qed

lemma secret_to_b32_ints:
  "secret_to_b32 (JArr (map JInt s)) = Inr (b32encode (unsigned_normalized s))"
  unfolding secret_to_b32_def iter_json_def
  by (simp only: json.case sum.case norm_bytes_ints bytes_of_normalized)

lemma quote_safe:
  assumes "set s \<subseteq> set (always_safe @ ''/'')"
  shows "quote_from_bytes s = s"
  using assms by (induction s) (simp_all add: quote_from_bytes_def quote_byte_def)

lemma digit_char_safe:
  assumes "d < 10"
  shows "digit_char d \<in> set (always_safe @ ''/'')"
proof -
  have "d = 0 \<or> d = 1 \<or> d = 2 \<or> d = 3 \<or> d = 4 \<or> d = 5 \<or> d = 6 \<or> d = 7 \<or> d = 8 \<or> d = 9"
    using assms by arith
  then show ?thesis
    by (elim disjE) (simp_all add: digit_char_def always_safe_def)
qed

lemma str_nat_safe: "set (str_nat n) \<subseteq> set (always_safe @ ''/'')"
proof (induction n rule: str_nat.induct)
  case (1 n)
  show ?case
  proof (cases "n < 10")
    case True
    then show ?thesis by (subst str_nat.simps) (use digit_char_safe [of n] in simp)
  next
    case False
    have "n mod 10 < 10" by simp
    then have "digit_char (n mod 10) \<in> set (always_safe @ ''/'')" by (rule digit_char_safe)
    then show ?thesis using False 1 by (subst str_nat.simps) simp
  qed
qed

lemma quote_str_int: "quote_from_bytes (str_int n) = str_int n"
proof (rule quote_safe)
  have "CHR ''-'' \<in> set (always_safe @ ''/'')" by (simp add: always_safe_def)
  then show "set (str_int n) \<subseteq> set (always_safe @ ''/'')"
    using str_nat_safe by (simp add: str_int_def)
qed

lemma quote_keys:
  "quote_from_bytes ''secret'' = ''secret''" "quote_from_bytes ''issuer'' = ''issuer''"
  "quote_from_bytes ''algorithm'' = ''algorithm''" "quote_from_bytes ''digits'' = ''digits''"
  "quote_from_bytes ''period'' = ''period''"
  by (simp_all add: quote_from_bytes_def quote_byte_def always_safe_def)

lemma make_label_spec:
  assumes "map_of kvs ''label'' = Some (JStr label)" "absent_or_str (map_of kvs ''issuerExt'')"
  shows "make_label L (JObj kvs) = Inr (JStr (spec_caption kvs label))"
  using assms
  by (auto simp: make_label_def get_truthy_def dict_get_def subscript_def truthy_def py_str_def
      spec_caption_def absent_or_str_def split: option.splits json.splits)

text \<open>
  Claim C3: for a record whose fields have the types of the data model (strings for
  \<^verbatim>\<open>type\<close>, \<^verbatim>\<open>label\<close>, \<^verbatim>\<open>algo\<close> and the issuer fields, integers for \<^verbatim>\<open>digits\<close>, \<^verbatim>\<open>period\<close>
  and the elements of \<^verbatim>\<open>secret\<close>) the loop produces the caption of the specification and the
  URI \<^verbatim>\<open>otpauth://<type lowercased>/<quoted caption>?secret=..&issuer=..&algorithm=..&digits=..&period=..\<close>
  with the five parameters in this order, every value percent-encoded on its own (the
  padding \<^verbatim>\<open>=\<close> of the secret becomes \<^verbatim>\<open>%3D\<close>; decimal numbers are unchanged by it).
\<close>

theorem uri_construction:
  assumes "map_of kvs ''type'' = Some (JStr ty)"
    and "map_of kvs ''label'' = Some (JStr label)"
    and "map_of kvs ''secret'' = Some (JArr (map JInt secret))"
    and "map_of kvs ''algo'' = Some (JStr algo)"
    and "map_of kvs ''digits'' = Some (JInt digits)"
    and "map_of kvs ''period'' = Some (JInt period)"
    and "spec_issuer L kvs i = JStr issuer"
    and "absent_or_str (map_of kvs ''issuerExt'')"
  shows "encode_token L (JObj kvs) i = Inr (spec_caption kvs label,
     ''otpauth://'' @ str_lower L ty @ ''/'' @ quote_from_bytes (spec_caption kvs label) @
     ''?secret='' @ quote_from_bytes (b32encode (unsigned_normalized secret)) @
     ''&issuer='' @ quote_from_bytes issuer @
     ''&algorithm='' @ quote_from_bytes algo @
     ''&digits='' @ str_int digits @
     ''&period='' @ str_int period)"
proof -
  have sub: "subscript (JObj kvs) ''type'' = Inr (JStr ty)"
      "subscript (JObj kvs) ''secret'' = Inr (JArr (map JInt secret))"
      "subscript (JObj kvs) ''algo'' = Inr (JStr algo)"
      "subscript (JObj kvs) ''digits'' = Inr (JInt digits)"
      "subscript (JObj kvs) ''period'' = Inr (JInt period)"
    using assms by (simp_all add: subscript_def)
  have lab: "make_label L (JObj kvs) = Inr (JStr (spec_caption kvs label))"
    using assms(2,8) by (rule make_label_spec)
  have iss: "resolve_issuer L (JObj kvs) i = Inr (JStr issuer)"
    using assms(7) by (simp add: resolve_issuer_spec)
  show ?thesis
    unfolding encode_token_def iss sub lab secret_to_b32_ints
    by (simp add: Let_def lower_of_def as_str_def query_data_def quote_def py_str_def
        quote_keys quote_str_int secret_to_b32_ints)
qed

theorem uri_construction_witness:
  "encode_token test_lib (JObj fields_acme) 0 = Inr (''Acme:alice@x.com'',
     ''otpauth://totp/Acme%3Aalice%40x.com?secret=757YA%3D%3D%3D&issuer=Acme&algorithm=SHA1&digits=6&period=30'')"
proof -
  have h: "map_of fields_acme ''type'' = Some (JStr ''TOTP'')"
      "map_of fields_acme ''label'' = Some (JStr ''alice@x.com'')"
      "map_of fields_acme ''secret'' = Some (JArr (map JInt [- 1, 127, - 128]))"
      "map_of fields_acme ''algo'' = Some (JStr ''SHA1'')"
      "map_of fields_acme ''digits'' = Some (JInt 6)"
      "map_of fields_acme ''period'' = Some (JInt 30)"
      "spec_issuer test_lib fields_acme 0 = JStr ''Acme''"
      "absent_or_str (map_of fields_acme ''issuerExt'')"
    by (simp_all add: fields_acme_def spec_issuer_def issuer_keys_def List.map_filter_simps
        truthy_def absent_or_str_def)
  have c: "spec_caption fields_acme ''alice@x.com'' = ''Acme:alice@x.com''"
    by (simp add: spec_caption_def fields_acme_def)
  have n: "unsigned_normalized [- 1, 127, - 128] = [255, 127, 128]"
    by (simp add: unsigned_normalized_def)
  have l: "str_lower test_lib ''TOTP'' = ''totp''"
    by (simp add: test_lib_def ascii_lower_def)
  show ?thesis
    unfolding uri_construction [OF h] c n l b32_pad
    by (simp add: quote_from_bytes_def quote_byte_def always_safe_def hex_digit_def str_nat_small)
qed

lemma uri_plain0: "encode_token test_lib token_plain 0 = Inr (''Zed'',
  ''otpauth://hotp/Zed?secret=JBSWY3DP&issuer=Unknown0&algorithm=SHA1&digits=6&period=30'')"
  by (simp add: token_eval token_plain_def fields_plain_def test_lib_def ascii_lower_def b32_hello
      str_nat_small)

lemma generate_twice:
  "generate_images test_lib ''qrcodes'' [token_plain, token_plain] =
    ([(''qrcodes/0.png'', ''otpauth://hotp/Zed?secret=JBSWY3DP&issuer=Unknown0&algorithm=SHA1&digits=6&period=30''),
      (''qrcodes/1.png'', ''otpauth://hotp/Zed?secret=JBSWY3DP&issuer=Unknown1&algorithm=SHA1&digits=6&period=30'')],
     Inr [(''Zed'', ''qrcodes/0.png''), (''Zed'', ''qrcodes/1.png'')])"
  by (simp add: generate_images_def uri_plain0 uri_plain [unfolded One_nat_def]
      str_nat_small [unfolded One_nat_def] Let_def)

text \<open>
  Claim C5, as stated: equal records give byte-identical URIs. The issuer of a record with
  no issuer field is \<^verbatim>\<open>Unknown<i>\<close>, so the same record at the positions 0 and 1 of one run
  gets two different URIs.
\<close>

theorem uri_determinism_counterexample:
  "map snd (fst (generate_images test_lib ''qrcodes'' [token_plain, token_plain])) =
     [''otpauth://hotp/Zed?secret=JBSWY3DP&issuer=Unknown0&algorithm=SHA1&digits=6&period=30'',
      ''otpauth://hotp/Zed?secret=JBSWY3DP&issuer=Unknown1&algorithm=SHA1&digits=6&period=30'']
   \<and> encode_token test_lib token_plain 0 \<noteq> encode_token test_lib token_plain 1"
  by (simp add: generate_twice uri_plain0 uri_plain [unfolded One_nat_def])

lemma spec_issuer_index:
  assumes "filter (truthy L) (List.map_filter (map_of kvs) issuer_keys) \<noteq> []"
  shows "spec_issuer L kvs i = spec_issuer L kvs j"
  using assms unfolding spec_issuer_def
  by (cases "filter (truthy L) (List.map_filter (map_of kvs) issuer_keys)") simp_all

text \<open>
  Claim C5, amended: the URI is a function of the record and of its position \<open>i\<close> in the
  run (equal records at equal positions give the same URI), and of the record alone when one
  of its four issuer fields is non-empty.
\<close>

theorem uri_determinism:
  "(t1 = t2 \<and> i = j \<longrightarrow> encode_token L t1 i = encode_token L t2 j)
   \<and> (filter (truthy L) (List.map_filter (map_of kvs) issuer_keys) \<noteq> [] \<longrightarrow>
        encode_token L (JObj kvs) i = encode_token L (JObj kvs) j)"
proof (intro conjI impI)
  assume "t1 = t2 \<and> i = j"
  then show "encode_token L t1 i = encode_token L t2 j" by simp
next
  assume "filter (truthy L) (List.map_filter (map_of kvs) issuer_keys) \<noteq> []"
  then have "spec_issuer L kvs i = spec_issuer L kvs j" by (rule spec_issuer_index)
  then have "resolve_issuer L (JObj kvs) i = resolve_issuer L (JObj kvs) j"
    by (simp add: resolve_issuer_spec)
  then show "encode_token L (JObj kvs) i = encode_token L (JObj kvs) j"
    unfolding encode_token_def by (rule arg_cong2 [where f = ebind]) simp
qed

theorem uri_determinism_witness:
  "filter (truthy test_lib) (List.map_filter (map_of fields_acme) issuer_keys) = [JStr ''Acme'']
   \<and> encode_token test_lib (JObj fields_acme) 0 = encode_token test_lib (JObj fields_acme) 7"
proof -
  have h: "filter (truthy test_lib) (List.map_filter (map_of fields_acme) issuer_keys) = [JStr ''Acme'']"
    by (simp add: fields_acme_def issuer_keys_def List.map_filter_simps truthy_def)
  then have "filter (truthy test_lib) (List.map_filter (map_of fields_acme) issuer_keys) \<noteq> []"
    by simp
  with uri_determinism [of _ _ 0 7 test_lib fields_acme] h show ?thesis by blast
qed

section \<open>Properties of the decoder and of the run\<close>

lemma test_loads:
  "json_loads test_lib token_text_acme = Inr token_acme"
  "json_loads test_lib token_text_nolabel = Inr token_nolabel"
  "json_loads test_lib ''not json'' = Inl JSONDecodeError"
  by (simp_all add: test_lib_def token_text_acme_def token_text_nolabel_def token_text_plain_def)

lemma encode_token_missing:
  assumes "k \<in> set required_keys" "map_of kvs k = None"
  shows "\<exists>e. encode_token L (JObj kvs) i = Inl e"
proof -
  have sub: "subscript (JObj kvs) k = Inl (KeyError k)"
    using assms(2) by (simp add: subscript_def)
  have lab: "\<exists>e. make_label L (JObj kvs) = Inl e" if "k = ''label''"
    using sub that
    by (auto simp: make_label_def get_truthy_def dict_get_def ebind_def split: sum.splits)
  from assms(1) have "k = ''secret'' \<or> k = ''algo'' \<or> k = ''digits'' \<or> k = ''period''
      \<or> k = ''label'' \<or> k = ''type''"
    by (simp add: required_keys_def)
  then show ?thesis
  proof (elim disjE)
    assume "k = ''label''"
    then obtain e where "make_label L (JObj kvs) = Inl e" using lab by blast
    then show ?thesis
      by (auto simp: encode_token_def ebind_def Let_def split: sum.splits)
  qed (use sub in \<open>auto simp: encode_token_def ebind_def Let_def split: sum.splits\<close>)
qed

lemma gen_loop_append:
  assumes "gen_loop L path pre i ql0 wr0 = (wr, Inr ql)"
  shows "gen_loop L path (pre @ rest) i ql0 wr0 = gen_loop L path rest (i + length pre) ql wr"
  using assms
proof (induction pre arbitrary: i ql0 wr0)
  case Nil
  then show ?case by simp
next
  case (Cons t pre)
  from Cons.prems obtain cap uri where e: "encode_token L t i = Inr (cap, uri)"
    by (auto split: sum.splits prod.splits)
  from Cons.prems e have q: "qrcode_error L uri = None"
    by (auto split: option.splits)
  from Cons.prems e q have "gen_loop L path pre (i + 1)
      (ql0 @ [(cap, path @ ''/'' @ str_nat i @ ''.png'')])
      (wr0 @ [(path @ ''/'' @ str_nat i @ ''.png'', uri)]) = (wr, Inr ql)"
    by (simp add: Let_def)
  from Cons.IH [OF this] show ?case using e q by (simp add: Let_def)
qed

lemma generate_images_missing:
  assumes "k \<in> set required_keys" "map_of kvs k = None"
    and "generate_images L path pre = (wr, Inr ql)"
  shows "\<exists>e. generate_images L path (pre @ JObj kvs # post) = (wr, Inl e)"
proof -
  obtain e where e: "encode_token L (JObj kvs) (length pre) = Inl e"
    using encode_token_missing [OF assms(1,2)] by blast
  have "gen_loop L path (pre @ JObj kvs # post) 0 [] [] =
      gen_loop L path (JObj kvs # post) (0 + length pre) ql wr"
    using assms(3) unfolding generate_images_def by (rule gen_loop_append)
  then show ?thesis using e by (simp add: generate_images_def)
qed

lemma parse_loop_fails:
  assumes "s \<in> set entries" "map_of (attrib s) ''name'' \<noteq> Some ''tokenOrder''"
    and "json_loads_text L (elem_text s) = Inl e"
  shows "\<exists>e'. parse_loop L entries tokens name = Inl e'"
  using assms(1)
proof (induction entries arbitrary: tokens name)
  case Nil
  then show ?case by simp
next
  case (Cons x entries)
  show ?case
  proof (cases "x = s")
    case True
    then show ?thesis using assms(2,3) by (simp add: Let_def)
  next
    case False
    then have "s \<in> set entries" using Cons.prems by simp
    then show ?thesis using Cons.IH
      by (cases "json_loads_text L (elem_text x)") (auto simp: Let_def)
  qed
qed

lemma parse_loop_name:
  assumes "parse_loop L entries tokens name = Inr (ts, name')" "entries \<noteq> []"
  shows "name' \<noteq> None"
  using assms
proof (induction entries arbitrary: tokens name)
  case Nil
  then show ?case by simp
next
  case (Cons x entries)
  show ?case
  proof (cases "entries = []")
    case True
    then show ?thesis using Cons.prems
      by (auto simp: Let_def ebind_def split: if_splits sum.splits)
  next
    case False
    then show ?thesis using Cons.prems Cons.IH
      by (auto simp: Let_def ebind_def split: if_splits sum.splits)
  qed
qed

lemma truthy_cong:
  assumes "float_truthy L' = float_truthy L"
  shows "truthy L' = truthy L"
proof
  fix v show "truthy L' v = truthy L v"
    using assms by (cases v) (simp_all add: truthy_def)
qed

lemma py_str_cong:
  assumes "py_repr L' = py_repr L"
  shows "py_str L' = py_str L"
proof
  fix v show "py_str L' v = py_str L v"
    using assms by (cases v) (simp_all add: py_str_def)
qed

lemma encode_token_cong:
  assumes "str_lower L' = str_lower L" "py_repr L' = py_repr L" "float_truthy L' = float_truthy L"
  shows "encode_token L' t i = encode_token L t i"
proof -
  have g: "get_truthy L' = get_truthy L"
    unfolding get_truthy_def truthy_cong [OF assms(3)] by (rule refl)
  have r: "resolve_issuer L' = resolve_issuer L"
    unfolding resolve_issuer_def g by (rule refl)
  have m: "make_label L' = make_label L"
    unfolding make_label_def g py_str_cong [OF assms(2)] by (rule refl)
  have l: "lower_of L' = lower_of L"
    unfolding lower_of_def assms(1) by (rule refl)
  show ?thesis
    unfolding encode_token_def r m l py_str_cong [OF assms(2)] by (rule refl)
qed

lemma gen_loop_cong:
  assumes "str_lower L' = str_lower L" "py_repr L' = py_repr L" "float_truthy L' = float_truthy L"
    "qrcode_error L' = qrcode_error L"
  shows "gen_loop L' path ts i ql wr = gen_loop L path ts i ql wr"
  by (induction ts arbitrary: i ql wr)
    (auto simp: encode_token_cong [OF assms(1,2,3)] assms(4) Let_def
      split: sum.splits option.splits prod.splits)

lemma run_parse_error:
  assumes "tokens_file w = Some c" "xml_parse L c = Inr root" "tokens_of_root L root = Inl e"
  shows "parse_tokens_from_xml L w = Inl e" "run_qrcodes L dir w = ([], Inl e)"
  using assms by (simp_all add: parse_tokens_from_xml_def run_qrcodes_def)

lemma run_generate_error:
  assumes "tokens_file w = Some c" "xml_parse L c = Inr root" "tokens_of_root L root = Inr ts"
    "generate_images L (dir @ ''/'' @ IMAGES_DIR) ts = (wr, Inl e)"
  shows "run_qrcodes L dir w = (wr, Inl e)"
  using assms by (simp add: parse_tokens_from_xml_def run_qrcodes_def)

lemma tokens_nolabel: "tokens_of_root test_lib root_nolabel = Inr [token_acme, token_nolabel]"
  by (simp add: tokens_of_root_def findall_def root_nolabel_def entry_acme_def entry_nolabel_def
      entry_order_def json_loads_text_def test_loads Let_def)

lemma generate_nolabel:
  "generate_images test_lib ''qrcodes'' [token_acme, token_nolabel] =
    ([(''qrcodes/0.png'', ''otpauth://totp/Acme%3Aalice%40x.com?secret=757YA%3D%3D%3D&issuer=Acme&algorithm=SHA1&digits=6&period=30'')],
     Inl (KeyError ''label''))"
  by (simp add: generate_images_def uri_acme uri_nolabel [unfolded One_nat_def]
      str_nat_small [unfolded One_nat_def] Let_def)

text \<open>
  Claim C8, as stated: decoding fails when a record lacks a required field, and the run then
  produces no URI. The decoder only calls \<^verbatim>\<open>json.loads\<close>: a record without \<^verbatim>\<open>label\<close> is
  decoded, and the \<^verbatim>\<open>KeyError\<close> is raised in \<^verbatim>\<open>generate_images\<close> after the URI of the record
  before it has been built and rendered.
\<close>

theorem malformed_record_counterexample:
  "tokens_of_root test_lib root_nolabel = Inr [token_acme, token_nolabel]
   \<and> map_of fields_nolabel ''label'' = None
   \<and> generate_images test_lib ''qrcodes'' [token_acme, token_nolabel] =
    ([(''qrcodes/0.png'', ''otpauth://totp/Acme%3Aalice%40x.com?secret=757YA%3D%3D%3D&issuer=Acme&algorithm=SHA1&digits=6&period=30'')],
     Inl (KeyError ''label''))"
  by (simp add: tokens_nolabel generate_nolabel fields_nolabel_def)

text \<open>
  Claim C8, amended: a value that is not valid JSON makes decoding fail, and the run ends
  with that error before any URI is built; a record that lacks one of \<^verbatim>\<open>secret\<close>, \<^verbatim>\<open>algo\<close>,
  \<^verbatim>\<open>digits\<close>, \<^verbatim>\<open>period\<close>, \<^verbatim>\<open>label\<close>, \<^verbatim>\<open>type\<close> passes decoding and makes the run fail
  when the encoder reaches it: the URIs of the records before it have been rendered, no
  \<^verbatim>\<open>qrcode_list\<close> is returned and no document is written.
\<close>

theorem malformed_record:
  "(s \<in> set (findall root ''string'') \<and> map_of (attrib s) ''name'' \<noteq> Some ''tokenOrder''
      \<and> json_loads_text L (elem_text s) = Inl e
      \<and> tokens_file w = Some c \<and> xml_parse L c = Inr root
    \<longrightarrow> (\<exists>e'. tokens_of_root L root = Inl e' \<and> run_qrcodes L dir w = ([], Inl e')))
   \<and> (k \<in> set required_keys \<and> map_of kvs k = None
      \<and> tokens_file w = Some c \<and> xml_parse L c = Inr root
      \<and> tokens_of_root L root = Inr (pre @ JObj kvs # post)
      \<and> generate_images L (dir @ ''/'' @ IMAGES_DIR) pre = (wr, Inr ql)
    \<longrightarrow> (\<exists>e'. run_qrcodes L dir w = (wr, Inl e')))"
proof (intro conjI impI)
  assume h: "s \<in> set (findall root ''string'') \<and> map_of (attrib s) ''name'' \<noteq> Some ''tokenOrder''
      \<and> json_loads_text L (elem_text s) = Inl e
      \<and> tokens_file w = Some c \<and> xml_parse L c = Inr root"
  then obtain e' where "parse_loop L (findall root ''string'') [] None = Inl e'"
    using parse_loop_fails [of s "findall root ''string''" L e "[]" None] by blast
  then have "tokens_of_root L root = Inl e'" by (simp add: tokens_of_root_def)
  then show "\<exists>e'. tokens_of_root L root = Inl e' \<and> run_qrcodes L dir w = ([], Inl e')"
    using h run_parse_error(2) [of w c L root e' dir] by blast
next
  assume h: "k \<in> set required_keys \<and> map_of kvs k = None
      \<and> tokens_file w = Some c \<and> xml_parse L c = Inr root
      \<and> tokens_of_root L root = Inr (pre @ JObj kvs # post)
      \<and> generate_images L (dir @ ''/'' @ IMAGES_DIR) pre = (wr, Inr ql)"
  then obtain e' where
    "generate_images L (dir @ ''/'' @ IMAGES_DIR) (pre @ JObj kvs # post) = (wr, Inl e')"
    using generate_images_missing [of k kvs L "dir @ ''/'' @ IMAGES_DIR" pre wr ql post] by blast
  then show "\<exists>e'. run_qrcodes L dir w = (wr, Inl e')"
    using h run_generate_error [of w c L root "pre @ JObj kvs # post" dir wr e'] by blast
qed

lemma lib_with_root_simps:
  "str_lower (lib_with_root r) = str_lower test_lib"
  "py_repr (lib_with_root r) = py_repr test_lib"
  "float_truthy (lib_with_root r) = float_truthy test_lib"
  "qrcode_error (lib_with_root r) = qrcode_error test_lib"
  "json_loads (lib_with_root r) = json_loads test_lib"
  "xml_parse (lib_with_root r) c = Inr r"
  by (simp_all add: lib_with_root_def)

lemma tokens_of_root_loads:
  assumes "json_loads L' = json_loads L"
  shows "tokens_of_root L' root = tokens_of_root L root"
proof -
  have j: "json_loads_text L' = json_loads_text L"
    unfolding json_loads_text_def assms by (rule refl)
  have "parse_loop L' es ts n = parse_loop L es ts n" for es ts n
    by (induction es arbitrary: ts n) (auto simp: j Let_def ebind_def split: sum.splits)
  then show ?thesis by (simp add: tokens_of_root_def)
qed

lemma tokens_broken: "tokens_of_root test_lib root_broken = Inl JSONDecodeError"
  by (simp add: tokens_of_root_def findall_def root_broken_def entry_acme_def entry_broken_def
      json_loads_text_def test_loads Let_def)

lemma generate_one:
  "generate_images test_lib (''w'' @ ''/'' @ IMAGES_DIR) [token_acme] =
    ([(''w/qrcodes/0.png'', ''otpauth://totp/Acme%3Aalice%40x.com?secret=757YA%3D%3D%3D&issuer=Acme&algorithm=SHA1&digits=6&period=30'')],
     Inr [(''Acme:alice@x.com'', ''w/qrcodes/0.png'')])"
  by (simp add: generate_images_def uri_acme str_nat_small Let_def IMAGES_DIR_def)

theorem malformed_record_witness:
  "run_qrcodes (lib_with_root root_broken) ''w'' sample_workdir = ([], Inl JSONDecodeError)
   \<and> (\<exists>e'. run_qrcodes (lib_with_root root_nolabel) ''w'' sample_workdir =
        ([(''w/qrcodes/0.png'', ''otpauth://totp/Acme%3Aalice%40x.com?secret=757YA%3D%3D%3D&issuer=Acme&algorithm=SHA1&digits=6&period=30'')],
         Inl e'))"
proof
  have t: "tokens_of_root (lib_with_root root_broken) root_broken = Inl JSONDecodeError"
    using tokens_of_root_loads [OF lib_with_root_simps(5)] tokens_broken by simp
  have h: "entry_broken \<in> set (findall root_broken ''string'')"
      "map_of (attrib entry_broken) ''name'' \<noteq> Some ''tokenOrder''"
      "json_loads_text (lib_with_root root_broken) (elem_text entry_broken) = Inl JSONDecodeError"
      "tokens_file sample_workdir = Some [60, 109, 97, 112, 62]"
      "xml_parse (lib_with_root root_broken) [60, 109, 97, 112, 62] = Inr root_broken"
    by (simp_all add: findall_def root_broken_def entry_acme_def entry_broken_def
        json_loads_text_def lib_with_root_simps test_loads sample_workdir_def)
  from malformed_record [where s = entry_broken and root = root_broken
      and L = "lib_with_root root_broken" and e = JSONDecodeError and w = sample_workdir
      and c = "[60, 109, 97, 112, 62]" and dir = "''w''"] h
  obtain e' where "tokens_of_root (lib_with_root root_broken) root_broken = Inl e'"
      "run_qrcodes (lib_with_root root_broken) ''w'' sample_workdir = ([], Inl e')"
    by blast
  with t show "run_qrcodes (lib_with_root root_broken) ''w'' sample_workdir =
      ([], Inl JSONDecodeError)"
    by simp
next
  let ?L = "lib_with_root root_nolabel"
  have t: "tokens_of_root ?L root_nolabel = Inr ([token_acme] @ JObj fields_nolabel # [])"
    using tokens_of_root_loads [OF lib_with_root_simps(5)] tokens_nolabel
    by (simp add: token_nolabel_def)
  have g: "generate_images ?L (''w'' @ ''/'' @ IMAGES_DIR) [token_acme] =
    ([(''w/qrcodes/0.png'', ''otpauth://totp/Acme%3Aalice%40x.com?secret=757YA%3D%3D%3D&issuer=Acme&algorithm=SHA1&digits=6&period=30'')],
     Inr [(''Acme:alice@x.com'', ''w/qrcodes/0.png'')])"
    unfolding generate_images_def gen_loop_cong [OF lib_with_root_simps(1,2,3,4)]
    using generate_one by (simp add: generate_images_def)
  have h: "''label'' \<in> set required_keys" "map_of fields_nolabel ''label'' = None"
      "tokens_file sample_workdir = Some [60, 109, 97, 112, 62]"
      "xml_parse ?L [60, 109, 97, 112, 62] = Inr root_nolabel"
    by (simp_all add: required_keys_def fields_nolabel_def lib_with_root_simps sample_workdir_def)
  from malformed_record [where L = ?L and w = sample_workdir and c = "[60, 109, 97, 112, 62]"
      and dir = "''w''" and k = "''label''" and kvs = fields_nolabel and root = root_nolabel
      and pre = "[token_acme]" and post = "[]"] h t g
  show "\<exists>e'. run_qrcodes ?L ''w'' sample_workdir =
        ([(''w/qrcodes/0.png'', ''otpauth://totp/Acme%3Aalice%40x.com?secret=757YA%3D%3D%3D&issuer=Acme&algorithm=SHA1&digits=6&period=30'')],
         Inl e')"
    by blast
qed

text \<open>
  Claim C10: for a credential file without \<^verbatim>\<open><string>\<close> entries the statement after the loop
  reads the unbound \<^verbatim>\<open>name\<close> and the decoder raises; the decoder returns a token list only
  when there is at least one \<^verbatim>\<open><string>\<close> entry.
\<close>

theorem empty_credential_file:
  "(findall root ''string'' = [] \<longrightarrow>
      tokens_of_root L root = Inl UnboundLocalError
      \<and> (tokens_file w = Some c \<and> xml_parse L c = Inr root \<longrightarrow>
           parse_tokens_from_xml L w = Inl UnboundLocalError
           \<and> run_qrcodes L dir w = ([], Inl UnboundLocalError)))
   \<and> (tokens_of_root L root = Inr tokens \<longrightarrow> findall root ''string'' \<noteq> [])"
proof (intro conjI impI)
  assume e: "findall root ''string'' = []"
  then show t: "tokens_of_root L root = Inl UnboundLocalError"
    by (simp add: tokens_of_root_def)
  assume a: "tokens_file w = Some c \<and> xml_parse L c = Inr root"
  show "parse_tokens_from_xml L w = Inl UnboundLocalError"
    using a t run_parse_error(1) [of w c L root UnboundLocalError] by simp
  show "run_qrcodes L dir w = ([], Inl UnboundLocalError)"
    using a t run_parse_error(2) [of w c L root UnboundLocalError dir] by simp
next
  assume r: "tokens_of_root L root = Inr tokens"
  show "findall root ''string'' \<noteq> []"
  proof
    assume "findall root ''string'' = []"
    then have "tokens_of_root L root = Inl UnboundLocalError"
      by (simp add: tokens_of_root_def)
    with r show False by simp
  qed
qed

theorem empty_credential_file_witness:
  "findall root_empty ''string'' = []
   \<and> tokens_of_root test_lib root_empty = Inl UnboundLocalError
   \<and> run_qrcodes (lib_with_root root_empty) ''w'' sample_workdir = ([], Inl UnboundLocalError)
   \<and> tokens_of_root test_lib root_nolabel = Inr [token_acme, token_nolabel]
   \<and> findall root_nolabel ''string'' \<noteq> []"
proof -
  have a: "findall root_empty ''string'' = []"
    by (simp add: findall_def root_empty_def)
  have h: "tokens_file sample_workdir = Some [60, 109, 97, 112, 62]"
      "xml_parse (lib_with_root root_empty) [60, 109, 97, 112, 62] = Inr root_empty"
    by (simp_all add: lib_with_root_simps sample_workdir_def)
  have b: "tokens_of_root test_lib root_empty = Inl UnboundLocalError"
    using empty_credential_file [where root = root_empty and L = test_lib] a by blast
  have c: "run_qrcodes (lib_with_root root_empty) ''w'' sample_workdir =
      ([], Inl UnboundLocalError)"
    using empty_credential_file [where root = root_empty and L = "lib_with_root root_empty"
        and w = sample_workdir and c = "[60, 109, 97, 112, 62]" and dir = "''w''"] a h by blast
  have d: "findall root_nolabel ''string'' \<noteq> []"
    using empty_credential_file [where root = root_nolabel and L = test_lib
        and tokens = "[token_acme, token_nolabel]"] tokens_nolabel by blast
  from a b c d tokens_nolabel show ?thesis by simp
qed

lemma extract_corrupt:
  assumes "backup_file w = Some content" "content \<noteq> []"
    and "zlib_decompress L (drop 24 content) = Inl e
         \<or> zlib_decompress L (drop 24 content) = Inr [] \<and> tar_extract L [] APK_PATH = Inl e"
  shows "extract_tokens_file L w = Inl e"
  using assms by (auto simp: extract_tokens_file_def)

lemma run_extract_error:
  assumes "tokens_file w = None" "extract_tokens_file L w = Inl e"
  shows "parse_tokens_from_xml L w = Inl e" "run_qrcodes L dir w = ([], Inl e)"
  using assms by (simp_all add: parse_tokens_from_xml_def run_qrcodes_def)

text \<open>
  Claim C9: unwrapping reads the container from byte 24 on; when \<^verbatim>\<open>zlib.decompress\<close> rejects
  these bytes, or returns the empty stream and the tar reader rejects it, this error (the
  specification's \<^verbatim>\<open>CorruptContainer\<close>) ends \<^verbatim>\<open>extract_tokens_file\<close>, the decoder that called
  it and the run, whatever the XML and JSON parsers would do: no token is decoded.
\<close>

theorem corrupt_container:
  "backup_file w = Some content \<and> content \<noteq> [] \<and> tokens_file w = None
     \<and> (zlib_decompress L (drop 24 content) = Inl e
        \<or> zlib_decompress L (drop 24 content) = Inr [] \<and> tar_extract L [] APK_PATH = Inl e)
   \<longrightarrow> extract_tokens_file L w = Inl e
       \<and> parse_tokens_from_xml L w = Inl e
       \<and> run_qrcodes L dir w = ([], Inl e)
       \<and> run_qrcodes (L\<lparr>json_loads := f, xml_parse := g\<rparr>) dir w = ([], Inl e)"
proof (intro impI)
  assume h: "backup_file w = Some content \<and> content \<noteq> [] \<and> tokens_file w = None
     \<and> (zlib_decompress L (drop 24 content) = Inl e
        \<or> zlib_decompress L (drop 24 content) = Inr [] \<and> tar_extract L [] APK_PATH = Inl e)"
  let ?L = "L\<lparr>json_loads := f, xml_parse := g\<rparr>"
  have x: "extract_tokens_file L w = Inl e"
    using h extract_corrupt [of w content L e] by blast
  have "zlib_decompress ?L = zlib_decompress L" "tar_extract ?L = tar_extract L" by simp_all
  then have x': "extract_tokens_file ?L w = Inl e"
    using h extract_corrupt [of w content ?L e] by simp
  show "extract_tokens_file L w = Inl e
       \<and> parse_tokens_from_xml L w = Inl e
       \<and> run_qrcodes L dir w = ([], Inl e)
       \<and> run_qrcodes ?L dir w = ([], Inl e)"
    using h x x' run_extract_error(1) [of w L e] run_extract_error(2) [of w L e dir]
      run_extract_error(2) [of w ?L e dir] by blast
qed

theorem corrupt_container_witness:
  "drop 24 (replicate 24 0 @ [1, 2, 3 :: byte]) = [1, 2, 3]
   \<and> zlib_decompress test_lib [1, 2, 3] = Inl ZlibError
   \<and> run_qrcodes test_lib ''w'' sample_container = ([], Inl ZlibError)
   \<and> zlib_decompress lib_empty_stream [1, 2, 3] = Inr []
   \<and> run_qrcodes lib_empty_stream ''w'' sample_container = ([], Inl ReadError)"
proof -
  have d: "drop 24 (replicate 24 0 @ [1, 2, 3 :: byte]) = [1, 2, 3]" by simp
  have h: "backup_file sample_container = Some (replicate 24 0 @ [1, 2, 3])"
      "replicate 24 0 @ [1, 2, 3 :: byte] \<noteq> []" "tokens_file sample_container = None"
    by (simp_all add: sample_container_def)
  have z: "zlib_decompress test_lib [1, 2, 3] = Inl ZlibError"
    by (simp add: test_lib_def)
  have z': "zlib_decompress lib_empty_stream [1, 2, 3] = Inr []"
      "tar_extract lib_empty_stream [] APK_PATH = Inl ReadError"
    by (simp_all add: lib_empty_stream_def test_lib_def)
  have a: "run_qrcodes test_lib ''w'' sample_container = ([], Inl ZlibError)"
    using corrupt_container [where w = sample_container and L = test_lib and e = ZlibError
        and content = "replicate 24 0 @ [1, 2, 3]" and dir = "''w''"] h z
    unfolding d by blast
  have b: "run_qrcodes lib_empty_stream ''w'' sample_container = ([], Inl ReadError)"
    using corrupt_container [where w = sample_container and L = lib_empty_stream
        and e = ReadError and content = "replicate 24 0 @ [1, 2, 3]" and dir = "''w''"] h z'
    unfolding d by blast
  from d z a z'(1) b show ?thesis by simp
qed

section \<open>Properties of the page layout\<close>

lemma step_cursor:
  "write_loop pdf (cursor_x k) (cursor_y k) (qc # rest) =
   write_loop (pdf @ emit k qc) (cursor_x (Suc k)) (cursor_y (Suc k)) rest"
proof (cases k)
  case 0
  then show ?thesis
    by (simp add: cursor_x_def cursor_y_def cell_x_def cell_y_def emit_def add_image_def
        QRCODE_W_def QRCODE_H_def)
next
  case (Suc j)
  define m where "m = j mod 12"
  have A: "j mod 2 = m mod 2"
    unfolding m_def by (simp add: mod_mod_cancel)
  have C: "Suc j mod 12 = Suc m mod 12"
    unfolding m_def by (simp add: mod_Suc_eq)
  have "Suc j mod 2 = (Suc j mod 12) mod 2"
    by (simp add: mod_mod_cancel)
  then have B: "Suc j mod 2 = Suc m mod 2"
    by (simp add: C mod_mod_cancel)
  have "m < 12" unfolding m_def by simp
  then have cases12: "m = 0 \<or> m = 1 \<or> m = 2 \<or> m = 3 \<or> m = 4 \<or> m = 5 \<or>
      m = 6 \<or> m = 7 \<or> m = 8 \<or> m = 9 \<or> m = 10 \<or> m = 11"
    by arith
  have cur: "cursor_x k = 105 + 95 * int (m mod 2)" "cursor_y k = 10 + 48 * int (m div 2)"
    by (simp_all add: Suc cursor_x_def cursor_y_def cell_x_def cell_y_def A m_def)
  have nxt: "cursor_x (Suc k) = cell_x k + 95" "cursor_y (Suc k) = cell_y k"
    by (simp_all add: cursor_x_def cursor_y_def)
  have cel: "cell_x k = 10 + 95 * int (Suc m mod 2)"
      "cell_y k = 10 + 48 * int ((Suc m mod 12) div 2)"
      "k mod 12 = Suc m mod 12"
    by (simp_all add: Suc cell_x_def cell_y_def B C)
  have "0 < k" by (simp add: Suc)
  with cases12 show ?thesis
    unfolding cur nxt emit_def cel
    by (elim disjE) (simp_all add: add_image_def QRCODE_W_def QRCODE_H_def)
qed

lemma write_loop_closed:
  "write_loop pdf (cursor_x k) (cursor_y k) qs =
     pdf @ concat (map (\<lambda>(j, qc). emit j qc) (zip [k ..< k + length qs] qs))"
proof (induction qs arbitrary: pdf k)
  case Nil
  show ?case by simp
next
  case (Cons qc rest)
  have u: "[k ..< k + length (qc # rest)] = k # [Suc k ..< Suc k + length rest]"
    using upt_conv_Cons [of k "k + length (qc # rest)"] by simp
  have "write_loop pdf (cursor_x k) (cursor_y k) (qc # rest) =
        write_loop (pdf @ emit k qc) (cursor_x (Suc k)) (cursor_y (Suc k)) rest"
    by (rule step_cursor)
  also have "\<dots> = (pdf @ emit k qc) @
        concat (map (\<lambda>(j, qc). emit j qc) (zip [Suc k ..< Suc k + length rest] rest))"
    by (rule Cons.IH)
  finally show ?case
    unfolding u by simp
qed

lemma pred_div12_boundary:
  assumes "0 < k" "k mod 12 = 0"
  shows "Suc ((k - 1) div 12) = k div (12::nat)"
proof -
  from assms(2) obtain q where q: "k = 12 * q" by (auto simp: mod_eq_0_iff_dvd)
  with assms(1) obtain q' where q': "q = Suc q'" by (cases q) auto
  have "k - 1 = 12 * q' + 11" by (simp add: q q')
  then have "(k - 1) div 12 = q'" by simp
  moreover have "k div 12 = Suc q'" by (simp add: q q')
  ultimately show ?thesis by simp
qed

lemma pred_div12_inside:
  assumes "k mod 12 \<noteq> 0"
  shows "(k - 1) div 12 = k div (12::nat)"
proof -
  define q where "q = k div 12"
  define r where "r = k mod 12"
  have k: "k = 12 * q + r" by (simp add: q_def r_def)
  from assms obtain r' where r': "r = Suc r'" by (cases r) (auto simp: r_def)
  have "r < 12" by (simp add: r_def)
  then have "r' < 12" by (simp add: r')
  have "k - 1 = 12 * q + r'" by (simp add: k r')
  then have "(k - 1) div 12 = q" using \<open>r' < 12\<close> by simp
  then show ?thesis by (simp add: q_def)
qed

lemma placements_emit:
  "placements (p + (k - 1) div 12) (emit k qc @ cs) =
     (p + k div 12, cell_x k, cell_y k, snd qc) # placements (p + k div 12) cs"
proof (cases "0 < k \<and> k mod 12 = 0")
  case True
  then have "Suc ((k - 1) div 12) = k div 12" using pred_div12_boundary [of k] by simp
  then have e: "Suc (p + (k - 1) div 12) = p + k div 12" by simp
  show ?thesis using True by (simp add: emit_def e del: One_nat_def)
next
  case False
  then have "(k - 1) div 12 = k div 12"
    using pred_div12_inside [of k] by (cases "k = 0") auto
  then have e: "p + (k - 1) div 12 = p + k div 12" by simp
  show ?thesis using False by (auto simp add: emit_def e simp del: One_nat_def)
qed

lemma placements_emits:
  "placements (p + (k - 1) div 12) (concat (map (\<lambda>(j, qc). emit j qc) (zip [k ..< k + length qs] qs)) @ cs) =
     map (\<lambda>(j, qc). (p + j div 12, cell_x j, cell_y j, snd qc)) (zip [k ..< k + length qs] qs)
     @ placements (p + (k + length qs - 1) div 12) cs"
proof (induction qs arbitrary: k)
  case Nil
  show ?case by simp
next
  case (Cons qc rest)
  have u: "[k ..< k + length (qc # rest)] = k # [Suc k ..< Suc k + length rest]"
    using upt_conv_Cons [of k "k + length (qc # rest)"] by simp
  have ih: "placements (p + k div 12)
       (concat (map (\<lambda>(j, qc). emit j qc) (zip [Suc k ..< Suc k + length rest] rest)) @ cs) =
     map (\<lambda>(j, qc). (p + j div 12, cell_x j, cell_y j, snd qc)) (zip [Suc k ..< Suc k + length rest] rest)
     @ placements (p + (k + length (qc # rest) - 1) div 12) cs"
    using Cons.IH [of "Suc k"] by (simp del: upt_Suc)
  have "placements (p + (k - 1) div 12)
      (concat (map (\<lambda>(j, qc). emit j qc) (zip [k ..< k + length (qc # rest)] (qc # rest))) @ cs) =
    placements (p + (k - 1) div 12)
      (emit k qc @ (concat (map (\<lambda>(j, qc). emit j qc) (zip [Suc k ..< Suc k + length rest] rest)) @ cs))"
    unfolding u by (simp del: upt_Suc One_nat_def)
  also have "\<dots> = (p + k div 12, cell_x k, cell_y k, snd qc) # placements (p + k div 12)
      (concat (map (\<lambda>(j, qc). emit j qc) (zip [Suc k ..< Suc k + length rest] rest)) @ cs)"
    by (rule placements_emit)
  finally show ?case
    unfolding u ih by (simp del: upt_Suc One_nat_def)
qed

lemma layout_closed:
  "layout qs = map (\<lambda>(j, qc). (j div 12, cell_x j, cell_y j, snd qc)) (zip [0 ..< length qs] qs)"
proof -
  have "write_to_pdf_file [] qs = concat (map (\<lambda>(j, qc). emit j qc) (zip [0 ..< 0 + length qs] qs)) @ []"
    unfolding write_to_pdf_file_def using write_loop_closed [of "[]" 0 qs]
    by (simp add: cursor_x_def cursor_y_def)
  then show ?thesis
    unfolding layout_def using placements_emits [of 0 0 qs "[]"] by simp
qed

lemma texts_emits:
  "texts (concat (map (\<lambda>(j, qc). emit j qc) (zip [k ..< k + length qs] qs))) = map fst qs"
proof (induction qs arbitrary: k)
  case Nil
  show ?case by simp
next
  case (Cons qc rest)
  have u: "[k ..< k + length (qc # rest)] = k # [Suc k ..< Suc k + length rest]"
    using upt_conv_Cons [of k "k + length (qc # rest)"] by simp
  show ?case unfolding u using Cons.IH [of "Suc k"]
    by (simp add: emit_def del: upt_Suc)
qed

lemma nth_layout:
  assumes "k < length qs"
  shows "layout qs ! k = (k div 12, cell_x k, cell_y k, snd (qs ! k))"
  using assms by (simp add: layout_closed)

lemma cells_apart:
  assumes "i \<noteq> j" "i div 12 = j div 12"
  shows "cell_x i + 35 \<le> cell_x j \<or> cell_x j + 35 \<le> cell_x i \<or>
         cell_y i + 35 \<le> cell_y j \<or> cell_y j + 35 \<le> cell_y i"
proof (cases "i mod 2 = j mod 2")
  case False
  have "i mod 2 = 0 \<or> i mod 2 = 1" "j mod 2 = 0 \<or> j mod 2 = 1" by linarith+
  with False show ?thesis by (auto simp: cell_x_def)
next
  case True
  define a where "a = (i mod 12) div 2"
  define b where "b = (j mod 12) div 2"
  have ab: "a \<noteq> b"
  proof
    assume e: "a = b"
    have "i mod 12 = 2 * a + (i mod 12) mod 2" by (simp add: a_def)
    moreover have "j mod 12 = 2 * b + (j mod 12) mod 2" by (simp add: b_def)
    moreover have "(i mod 12) mod 2 = i mod 2" "(j mod 12) mod 2 = j mod 2"
      by (simp_all add: mod_mod_cancel)
    ultimately have "i mod 12 = j mod 12" using True e by simp
    moreover have "i = 12 * (i div 12) + i mod 12" "j = 12 * (j div 12) + j mod 12" by simp_all
    ultimately have "i = j" using assms(2) by metis
    with assms(1) show False by simp
  qed
  then consider "a < b" | "b < a" by linarith
  then show ?thesis
    by cases (simp_all add: cell_y_def a_def [symmetric] b_def [symmetric])
qed


lemma no_overlap:
  assumes "i < j" "j < length qs"
  shows "\<not> overlap (layout qs ! i) (layout qs ! j)"
proof -
  have i: "i < length qs" using assms by simp
  have "i \<noteq> j" using assms by simp
  then show ?thesis
    using cells_apart [of i j]
    by (auto simp: nth_layout [OF i] nth_layout [OF assms(2)] overlap_def QRCODE_W_def QRCODE_H_def)
qed

lemma pages_layout: "fst ` set (layout qs) = {0 ..< (length qs + 11) div 12}"
proof -
  define n where "n = length qs"
  define P where "P = (n + 11) div 12"
  have s: "fst ` set (layout qs) = (\<lambda>k. k div 12) ` {0 ..< n}"
  proof -
    have "map fst (layout qs) = map (\<lambda>k. k div 12) [0 ..< n]"
      unfolding layout_closed n_def by (rule nth_equalityI) simp_all
    then have "set (map fst (layout qs)) = set (map (\<lambda>k. k div 12) [0 ..< n])" by simp
    then show ?thesis by simp
  qed
  have up: "n \<le> P * 12"
  proof -
    have "n + 11 = P * 12 + (n + 11) mod 12" by (simp add: P_def)
    moreover have "(n + 11) mod 12 \<le> 11" by simp
    ultimately show ?thesis by linarith
  qed
  have lo: "p * 12 < n" if "p < P" for p
  proof -
    from that have "Suc p \<le> (n + 11) div 12" by (simp add: P_def)
    then have "Suc p * 12 \<le> n + 11" by (simp add: less_eq_div_iff_mult_less_eq)
    then show ?thesis by simp
  qed
  have "(\<lambda>k. k div 12) ` {0 ..< n} = {0 ..< P}"
  proof (intro set_eqI iffI)
    fix p assume "p \<in> (\<lambda>k. k div 12) ` {0 ..< n}"
    then obtain k where k: "k < n" "p = k div 12" by auto
    from k(1) up have "k < P * 12" by simp
    then have "k div 12 < P" by (simp add: div_less_iff_less_mult)
    then show "p \<in> {0 ..< P}" by (simp add: k)
  next
    fix p assume "p \<in> {0 ..< P}"
    then have "p * 12 < n" using lo by simp
    moreover have "(p * 12) div 12 = p" by simp
    ultimately show "p \<in> (\<lambda>k. k div 12) ` {0 ..< n}" by force
  qed
  then show ?thesis using s by (simp add: P_def n_def)
qed


lemma admissible_cells:
  "{c. admissible c} = {10, 105} \<times> {10, 58, 106, 154, 202, 250}"
proof (intro set_eqI iffI)
  fix c :: "int \<times> int"
  obtain x y where c: "c = (x, y)" by (cases c)
  assume "c \<in> {c. admissible c}"
  then have h: "10 \<le> x" "x \<le> 150" "(x - 10) mod 95 = 0" "10 \<le> y" "y \<le> 250" "(y - 10) mod 48 = 0"
    by (simp_all add: c admissible_def QRCODE_W_def QRCODE_H_def)
  from h(3) obtain k where k: "x - 10 = 95 * k" by (auto simp: mod_eq_0_iff_dvd)
  from h(6) obtain l where l: "y - 10 = 48 * l" by (auto simp: mod_eq_0_iff_dvd)
  have "0 \<le> k" "k \<le> 1" using h(1,2) k by linarith+
  then have kk: "k = 0 \<or> k = 1" by linarith
  have "0 \<le> l" "l \<le> 5" using h(4,5) l by linarith+
  then have ll: "l = 0 \<or> l = 1 \<or> l = 2 \<or> l = 3 \<or> l = 4 \<or> l = 5" by linarith
  have x: "x = 10 + 95 * k" and y: "y = 10 + 48 * l" using k l by simp_all
  from kk have "x = 10 \<or> x = 105" unfolding x by auto
  moreover from ll have "y = 10 \<or> y = 58 \<or> y = 106 \<or> y = 154 \<or> y = 202 \<or> y = 250"
    unfolding y by auto
  ultimately show "c \<in> {10, 105} \<times> {10, 58, 106, 154, 202, 250}"
    unfolding c by blast
next
  fix c :: "int \<times> int"
  assume "c \<in> {10, 105} \<times> {10, 58, 106, 154, 202, 250}"
  then show "c \<in> {c. admissible c}"
    by (auto simp: admissible_def QRCODE_W_def QRCODE_H_def)
qed

lemma page_capacity:
  fixes alt :: "(nat \<times> int \<times> int) list"
  assumes "distinct alt" "\<forall>c \<in> set alt. admissible (snd c)"
  shows "length alt \<le> 12 * card (fst ` set alt)"
proof -
  have "set alt \<subseteq> (fst ` set alt) \<times> {c. admissible c}"
  proof
    fix e assume e: "e \<in> set alt"
    then have "fst e \<in> fst ` set alt" by simp
    moreover have "snd e \<in> {c. admissible c}" using assms(2) e by simp
    ultimately show "e \<in> (fst ` set alt) \<times> {c. admissible c}"
      by (simp add: mem_Times_iff)
  qed
  moreover have fin: "finite ((fst ` set alt) \<times> {c. admissible c})"
    by (simp add: admissible_cells)
  ultimately have "card (set alt) \<le> card ((fst ` set alt) \<times> {c. admissible c})"
    by (rule card_mono [rotated])
  also have "\<dots> = card (fst ` set alt) * 12"
    by (simp add: card_cartesian_product admissible_cells)
  finally show ?thesis using assms(1) by (simp add: distinct_card mult.commute)
qed



text \<open>
  Claim C4, as stated: with ten entries the fourth placement of a row is followed by the wrap
  to \<open>x = 10\<close>, \<open>y + 48\<close>. The code advances \<open>x\<close> by \<open>QRCODE_W + 60 = 95\<close>, so
  the cursor passes 150 after the second placement: the third entry is already at
  \<open>(10, 58)\<close> and no row ever holds four entries.
\<close>

theorem layout_wrap_counterexample:
  "map (\<lambda>(p, x, y, img). (x, y)) (take 5 (layout ten_entries)) =
     [(10, 10), (105, 10), (10, 58), (105, 58), (10, 106)]
   \<and> \<not> (map (\<lambda>(p, x, y, img). y) (take 4 (layout ten_entries)) = [10, 10, 10, 10]
        \<and> (\<lambda>(p, x, y, img). (x, y)) (layout ten_entries ! 4) = (10, 58))"
  by (simp add: layout_def write_to_pdf_file_def ten_entries_def add_image_def
      QRCODE_W_def QRCODE_H_def)

text \<open>
  Claim C4, amended: the cursor starts at \<open>(10, 10)\<close> and the loop wraps when \<open>x\<close>
  exceeds 150 and starts a page when \<open>y\<close> exceeds 250, so that entry \<open>k\<close> (from 0)
  is placed at \<open>x = 10 + 95 (k mod 2)\<close>, \<open>y = 10 + 48 ((k mod 12) div 2)\<close> on page
  \<open>k div 12\<close>: the wrap comes after every second placement, a page is added exactly
  before the entries 12, 24, ..., and every entry is placed once, in input order.
\<close>

theorem layout_wrap:
  "write_to_pdf_file pdf qs =
     pdf @ concat (map (\<lambda>(k, qc). emit k qc) (zip [0 ..< length qs] qs))
   \<and> layout qs =
     map (\<lambda>(k, qc). (k div 12, 10 + 95 * int (k mod 2), 10 + 48 * int ((k mod 12) div 2), snd qc))
       (zip [0 ..< length qs] qs)"
proof
  show "write_to_pdf_file pdf qs =
     pdf @ concat (map (\<lambda>(k, qc). emit k qc) (zip [0 ..< length qs] qs))"
    unfolding write_to_pdf_file_def using write_loop_closed [of pdf 0 qs]
    by (simp add: cursor_x_def cursor_y_def)
  show "layout qs =
     map (\<lambda>(k, qc). (k div 12, 10 + 95 * int (k mod 2), 10 + 48 * int ((k mod 12) div 2), snd qc))
       (zip [0 ..< length qs] qs)"
    by (simp add: layout_closed cell_x_def cell_y_def)
qed

theorem layout_wrap_witness:
  "map (\<lambda>(p, x, y, img). (p, x, y)) (layout thirteen_entries) =
     [(0, 10, 10), (0, 105, 10), (0, 10, 58), (0, 105, 58), (0, 10, 106), (0, 105, 106),
      (0, 10, 154), (0, 105, 154), (0, 10, 202), (0, 105, 202), (0, 10, 250), (0, 105, 250),
      (1, 10, 10)]"
  using layout_wrap [of "[]" thirteen_entries]
  by (simp add: thirteen_entries_def ten_entries_def upt_rec_numeral)

text \<open>
  Claim C7: no two placements of one page overlap; the images placed are exactly the input
  entries, once each and in order (and so are the captions); the number of pages holding an
  entry is \<open>\<lceil>n / 12\<rceil>\<close>, which no arrangement of \<open>n\<close> entries on distinct admissible
  cells can beat.
\<close>

theorem layout_invariant:
  "(\<forall>i j. i < j \<and> j < length qs \<longrightarrow> \<not> overlap (layout qs ! i) (layout qs ! j))
   \<and> map (\<lambda>(p, x, y, img). img) (layout qs) = map snd qs
   \<and> texts (write_to_pdf_file [] qs) = map fst qs
   \<and> card (fst ` set (layout qs)) = (length qs + 11) div 12
   \<and> (distinct (alt :: (nat \<times> int \<times> int) list)
        \<and> (\<forall>c \<in> set alt. admissible (snd c)) \<and> length alt = length qs
        \<longrightarrow> card (fst ` set (layout qs)) \<le> card (fst ` set alt))"
proof (intro conjI allI impI)
  fix i j assume "i < j \<and> j < length qs"
  then show "\<not> overlap (layout qs ! i) (layout qs ! j)"
    using no_overlap [of i j qs] by simp
next
  show "map (\<lambda>(p, x, y, img). img) (layout qs) = map snd qs"
    unfolding layout_closed by (rule nth_equalityI) simp_all
next
  have "write_to_pdf_file [] qs =
      concat (map (\<lambda>(j, qc). emit j qc) (zip [0 ..< 0 + length qs] qs))"
    unfolding write_to_pdf_file_def using write_loop_closed [of "[]" 0 qs]
    by (simp add: cursor_x_def cursor_y_def)
  then show "texts (write_to_pdf_file [] qs) = map fst qs"
    using texts_emits [of 0 qs] by simp
next
  show "card (fst ` set (layout qs)) = (length qs + 11) div 12"
    by (simp add: pages_layout)
next
  assume h: "distinct alt \<and> (\<forall>c \<in> set alt. admissible (snd c)) \<and> length alt = length qs"
  then have "length qs \<le> 12 * card (fst ` set alt)"
    using page_capacity [of alt] by simp
  then have "length qs + 11 \<le> 12 * card (fst ` set alt) + 11" by simp
  then have "(length qs + 11) div 12 \<le> (12 * card (fst ` set alt) + 11) div 12"
    by (rule div_le_mono)
  also have "\<dots> = card (fst ` set alt)" by simp
  finally show "card (fst ` set (layout qs)) \<le> card (fst ` set alt)"
    by (simp add: pages_layout)
qed

theorem layout_invariant_witness:
  "\<not> overlap (layout thirteen_entries ! 0) (layout thirteen_entries ! 12)
   \<and> \<not> overlap (layout thirteen_entries ! 2) (layout thirteen_entries ! 3)
   \<and> card (fst ` set (layout thirteen_entries)) = 2
   \<and> distinct thirteen_cells \<and> list_all (\<lambda>c. admissible (snd c)) thirteen_cells
   \<and> length thirteen_cells = length thirteen_entries
   \<and> card (fst ` set (layout thirteen_entries)) \<le> card (fst ` set thirteen_cells)"
proof -
  have n: "length thirteen_entries = 13"
    by (simp add: thirteen_entries_def ten_entries_def)
  have h: "distinct thirteen_cells" "list_all (\<lambda>c. admissible (snd c)) thirteen_cells"
      "length thirteen_cells = length thirteen_entries"
    by (simp_all add: thirteen_cells_def n admissible_def QRCODE_W_def QRCODE_H_def)
  show ?thesis
    using layout_invariant [of thirteen_entries thirteen_cells] h
    by (simp add: n list_all_iff)
qed

section \<open>Properties of the caption order\<close>












end
